theory Spec2Isabelle
  imports Complex_Main "HOL-Library.Word" "HOL-Library.AList" "HOL-Library.Multiset"
    "HOL-Library.Sublist"
begin

section \<open>The search-index plugin: strings, errors and route classification\<close>

text \<open>
  The development follows the TypeScript server module of the plugin (the file with
  \<^verbatim>\<open>urlMatchesPrefix\<close>, \<^verbatim>\<open>cmfcmfDocusaurusSearchLocal\<close> and its \<^verbatim>\<open>postBuild\<close> hook).
  A JavaScript string that holds a route, a path or program text is a \<^typ>\<open>string\<close>, a
  \<^typ>\<open>char\<close> standing for a code unit: the code only compares, slices and concatenates
  such strings, so nothing depends on how many code units there are.
  Every \<^verbatim>\<open>throw\<close> of the source is a value of \<open>error\<close> on the left of a sum.
\<close>

datatype error =
    PrefixStartsWithSlash     \<comment> \<open>\<^verbatim>\<open>prefix must not start with a /\<close>\<close>
  | PrefixEndsWithSlash       \<comment> \<open>\<^verbatim>\<open>prefix must not end with a /\<close>\<close>
  | RouteOutsideBaseUrl       \<comment> \<open>\<^verbatim>\<open>The route must start with the baseUrl\<close>\<close>
  | NoDocsPlugin              \<comment> \<open>\<^verbatim>\<open>indexDocs\<close> is enabled but no docs plugin has been found\<close>
  | NoBlogPlugin
  | NoPagesPlugin
  | DeprecatedJp              \<comment> \<open>the language code \<^verbatim>\<open>jp\<close> is deprecated\<close>
  | SeparatorNotSupported     \<comment> \<open>\<^verbatim>\<open>lunr.tokenizerSeparator option is not supported for 'ja' and 'th'\<close>\<close>
  | PageFailed                \<comment> \<open>a rejected file read or a throwing extractor: \<^verbatim>\<open>Promise.all\<close> rejects\<close>
  | PushIsNotAFunction        \<comment> \<open>the \<^verbatim>\<open>TypeError\<close> of calling \<^verbatim>\<open>push\<close> on a value without it\<close>

definition bindE :: "'e + 'a \<Rightarrow> ('a \<Rightarrow> 'e + 'b) \<Rightarrow> 'e + 'b" where
  "bindE m f = (case m of Inl e \<Rightarrow> Inl e | Inr x \<Rightarrow> f x)"

definition orE :: "'e + bool \<Rightarrow> 'e + bool \<Rightarrow> 'e + bool" where
  \<comment> \<open>\<^verbatim>\<open>a || b\<close> where both operands may throw: \<open>b\<close> is evaluated only when \<open>a\<close> is false\<close>
  "orE a b = bindE a (\<lambda>x. if x then Inr True else b)"

definition startsWith :: "string \<Rightarrow> string \<Rightarrow> bool" where
  "startsWith s p = prefix p s"

definition endsWith :: "string \<Rightarrow> string \<Rightarrow> bool" where
  "endsWith s p = suffix p s"

definition urlMatchesPrefix :: "string \<Rightarrow> string \<Rightarrow> error + bool" where
  "urlMatchesPrefix url pfx =
     (if startsWith pfx ''/'' then Inl PrefixStartsWithSlash
      else if endsWith pfx ''/'' then Inl PrefixEndsWithSlash
      else Inr (pfx = '''' \<or> url = pfx \<or> startsWith url (pfx @ ''/'')))"

definition trimLeadingSlash :: "string \<Rightarrow> string" where
  "trimLeadingSlash path =
     (if path = '''' \<or> \<not> startsWith path ''/'' then path else drop 1 path)"

definition trimTrailingSlash :: "string \<Rightarrow> string" where
  "trimTrailingSlash path =
     (if path = '''' \<or> \<not> endsWith path ''/'' then path else take (length path - 1) path)"

subsection \<open>Options and registered content plugins\<close>

datatype language = Single string | Multiple "string list"

type_synonym jsstring = "16 word list"
  \<comment> \<open>text that the generated tokenizer works on: the UTF-16 code units of a string\<close>

record regexp =
  re_toString :: string   \<comment> \<open>what \<^verbatim>\<open>RegExp.prototype.toString\<close> prints, such as \<^verbatim>\<open>/[,;]+/\<close>\<close>
  re_split :: "jsstring \<Rightarrow> jsstring list"   \<comment> \<open>what \<^verbatim>\<open>String.prototype.split\<close> does with it\<close>

record options =
  indexDocs :: bool
  indexDocSidebarParentCategories :: nat
  includeParentCategoriesInPageTitle :: bool
  indexBlog :: bool
  indexPages :: bool
  language :: language
  style_none :: bool                          \<comment> \<open>\<^verbatim>\<open>style === "none"\<close>\<close>
  lunr_tokenizerSeparator :: "regexp option"
  lunr_k1 :: real
  lunr_b :: real

text \<open>
  The remaining options (\<^verbatim>\<open>maxSearchResults\<close>, \<^verbatim>\<open>filterByPathName\<close>, \<^verbatim>\<open>subPath\<close> and the
  four boosts) are only handed to \<^verbatim>\<open>setGlobalData\<close>; neither the generated module nor
  \<^verbatim>\<open>postBuild\<close> reads them.
\<close>

record loaded_plugin =
  plugin_name :: string
  options_id :: string
  routeBasePath :: string
  tagsBasePath :: string

definition buildPluginMap :: "loaded_plugin list \<Rightarrow> string \<Rightarrow> (string \<times> loaded_plugin) list" where
  \<comment> \<open>\<^verbatim>\<open>new Map(entries)\<close>: a repeated key keeps its first position and takes the last value\<close>
  "buildPluginMap plugins nm =
     foldl (\<lambda>m p. AList.update (options_id p) p m) []
       (filter (\<lambda>p. plugin_name p = nm) plugins)"

definition values_of :: "(string \<times> loaded_plugin) list \<Rightarrow> loaded_plugin list" where
  "values_of m = map snd m"

subsection \<open>Route classification\<close>

datatype content_type = Docs | Blog | Page

record classified =
  c_route :: string
  c_url :: string
  c_type :: content_type

datatype verdict = Excluded | Indexed
  \<comment> \<open>what the body of a plugin loop returns once a base path matched: \<^verbatim>\<open>[]\<close> or the route\<close>

definition basePath :: "loaded_plugin \<Rightarrow> string" where
  "basePath p = trimLeadingSlash (trimTrailingSlash (routeBasePath p))"

definition tagsPath :: "loaded_plugin \<Rightarrow> string" where
  "tagsPath p = trimLeadingSlash (trimTrailingSlash (tagsBasePath p))"

fun docsLoop :: "string \<Rightarrow> loaded_plugin list \<Rightarrow> error + verdict option" where
  "docsLoop route [] = Inr None"
| "docsLoop route (p # ps) =
     bindE (urlMatchesPrefix route (basePath p)) (\<lambda>m.
       if m then
         bindE (orE (urlMatchesPrefix route (trimLeadingSlash (basePath p @ ''/'' @ tagsPath p)))
                    (urlMatchesPrefix route (trimLeadingSlash (basePath p @ ''/__docusaurus''))))
           (\<lambda>skip. Inr (Some (if skip then Excluded else Indexed)))
       else docsLoop route ps)"

fun blogLoop :: "string \<Rightarrow> loaded_plugin list \<Rightarrow> error + verdict option" where
  "blogLoop route [] = Inr None"
| "blogLoop route (p # ps) =
     bindE (urlMatchesPrefix route (basePath p)) (\<lambda>m.
       if m then
         bindE (orE (Inr (route = basePath p))
                 (orE (urlMatchesPrefix route (trimLeadingSlash (basePath p @ ''/'' @ tagsPath p)))
                      (urlMatchesPrefix route (trimLeadingSlash (basePath p @ ''/__docusaurus'')))))
           (\<lambda>skip. Inr (Some (if skip then Excluded else Indexed)))
       else blogLoop route ps)"

fun pagesLoop :: "string \<Rightarrow> loaded_plugin list \<Rightarrow> error + verdict option" where
  "pagesLoop route [] = Inr None"
| "pagesLoop route (p # ps) =
     bindE (urlMatchesPrefix route (basePath p)) (\<lambda>m.
       if m then
         bindE (urlMatchesPrefix route (trimLeadingSlash (basePath p @ ''/__docusaurus'')))
           (\<lambda>skip. Inr (Some (if skip then Excluded else Indexed)))
       else pagesLoop route ps)"

definition enabled :: "bool \<Rightarrow> (error + verdict option) \<Rightarrow> error + verdict option" where
  \<comment> \<open>\<^verbatim>\<open>if (indexX) { for (...) {...} }\<close>: a disabled type falls through without looking\<close>
  "enabled flag loop = (if flag then loop else Inr None)"

definition classifyRoute ::
  "options \<Rightarrow> loaded_plugin list \<Rightarrow> loaded_plugin list \<Rightarrow> loaded_plugin list \<Rightarrow>
   string \<Rightarrow> string \<Rightarrow> error + classified option" where
  "classifyRoute opts docsPlugins blogPlugins pagesPlugins baseUrl url =
     (let route = drop (length baseUrl) url in
      if \<not> startsWith url baseUrl then Inl RouteOutsideBaseUrl
      else if route = ''404.html'' then Inr None
      else bindE (enabled (indexDocs opts) (docsLoop route docsPlugins)) (\<lambda>d.
        case d of
          Some v \<Rightarrow> Inr (if v = Excluded then None
                         else Some \<lparr>c_route = route, c_url = url, c_type = Docs\<rparr>)
        | None \<Rightarrow> bindE (enabled (indexBlog opts) (blogLoop route blogPlugins)) (\<lambda>b.
            case b of
              Some v \<Rightarrow> Inr (if v = Excluded then None
                             else Some \<lparr>c_route = route, c_url = url, c_type = Blog\<rparr>)
            | None \<Rightarrow> bindE (enabled (indexPages opts) (pagesLoop route pagesPlugins)) (\<lambda>g.
                case g of
                  Some v \<Rightarrow> Inr (if v = Excluded then None
                                 else Some \<lparr>c_route = route, c_url = url, c_type = Page\<rparr>)
                | None \<Rightarrow> Inr None))))"

fun classifyAll ::
  "options \<Rightarrow> loaded_plugin list \<Rightarrow> loaded_plugin list \<Rightarrow> loaded_plugin list \<Rightarrow>
   string \<Rightarrow> string list \<Rightarrow> error + classified list" where
  \<comment> \<open>\<^verbatim>\<open>routesPaths.flatMap(...)\<close>: in order, the first throwing route aborts\<close>
  "classifyAll opts dp bp pp baseUrl [] = Inr []"
| "classifyAll opts dp bp pp baseUrl (url # urls) =
     bindE (classifyRoute opts dp bp pp baseUrl url) (\<lambda>c.
       bindE (classifyAll opts dp bp pp baseUrl urls) (\<lambda>cs.
         Inr ((case c of None \<Rightarrow> [] | Some x \<Rightarrow> [x]) @ cs)))"

subsection \<open>The classifier of the earlier JavaScript module\<close>

text \<open>
  The repository also holds the first version of the hook, a JavaScript module with one
  blog and one docs base path, given with a leading slash that the module strips. It
  matches a base path with \<^verbatim>\<open>startsWith\<close> alone, blog before docs, and takes every
  remaining route as a page.
\<close>

definition legacyClassifyRoute ::
  "bool \<Rightarrow> bool \<Rightarrow> bool \<Rightarrow> string \<Rightarrow> string \<Rightarrow> string \<Rightarrow> string \<Rightarrow> error + classified option" where
  "legacyClassifyRoute indexPages' indexBlog' indexDocs' blogBasePath docsBasePath base url =
     (let route = drop (length base) url in
      if \<not> startsWith url base then Inl RouteOutsideBaseUrl
      else if route = ''404.html'' then Inr None
      else if indexBlog' \<and> startsWith route blogBasePath then
        (if route = blogBasePath \<or> startsWith route (blogBasePath @ ''/tags/'')
            \<or> route = blogBasePath @ ''/tags''
         then Inr None
         else Inr (Some \<lparr>c_route = route, c_url = url, c_type = Blog\<rparr>))
      else if indexDocs' \<and> startsWith route docsBasePath then
        Inr (Some \<lparr>c_route = route, c_url = url, c_type = Docs\<rparr>)
      else if indexPages' then Inr (Some \<lparr>c_route = route, c_url = url, c_type = Page\<rparr>)
      else Inr None)"

subsection \<open>From classified routes to numbered documents\<close>

record data_entry =
  d_file :: string
  d_url :: string
  d_type :: content_type

record page_section =
  sec_hash :: string
  sec_title :: string
  sec_content :: string
  sec_tags :: "string list"

record parsed =
  p_pageTitle :: string
  p_sections :: "page_section list"
  p_docSidebarParentCategories :: "string list option"   \<comment> \<open>\<open>None\<close> is \<^verbatim>\<open>undefined\<close>\<close>

text \<open>
  The collaborators of \<^verbatim>\<open>postBuild\<close> that are not part of the module: the file system,
  the two extractors of \<^verbatim>\<open>./parse\<close>, \<^verbatim>\<open>path.join\<close>, and the order in which the
  concurrently issued file reads complete. \<open>None\<close> is a rejected read or a throwing
  extractor. \<open>completion\<close> lists positions of the \<^verbatim>\<open>data\<close> array, first completed first.
\<close>

record env =
  readFile :: "string \<Rightarrow> string option"
  html2text :: "string \<Rightarrow> content_type \<Rightarrow> string \<Rightarrow> parsed option"
  getDocusaurusTag :: "string \<Rightarrow> string option"
  path_join :: "string list \<Rightarrow> string"
  completion :: "nat list"

record page =
  pg_url :: string
  pg_type :: content_type
  pg_parsed :: parsed
  pg_tag :: string

record document =
  doc_id :: nat
  pageTitle :: string
  pageRoute :: string
  sectionRoute :: string
  sectionTitle :: string
  sectionContent :: string
  sectionTags :: "string list"
  docusaurusTag :: string
  docSidebarParentCategories :: "string list option"
  doc_type :: content_type

definition toFile :: "env \<Rightarrow> string \<Rightarrow> bool option \<Rightarrow> classified \<Rightarrow> data_entry" where
  "toFile e outDir trailingSlash c =
     \<lparr>d_file =
        (if trailingSlash = Some False
         then path_join e [outDir, (if c_route c = '''' then ''index'' else c_route c) @ ''.html'']
         else path_join e [outDir, c_route c, ''index.html'']),
      d_url = c_url c, d_type = c_type c\<rparr>"

definition readPage :: "env \<Rightarrow> data_entry \<Rightarrow> error + page" where
  "readPage e d =
     (case readFile e (d_file d) of
        None \<Rightarrow> Inl PageFailed
      | Some html \<Rightarrow>
          (case html2text e html (d_type d) (d_url d) of
             None \<Rightarrow> Inl PageFailed
           | Some ps \<Rightarrow>
               (case getDocusaurusTag e html of
                  None \<Rightarrow> Inl PageFailed
                | Some t \<Rightarrow> Inr \<lparr>pg_url = d_url d, pg_type = d_type d, pg_parsed = ps, pg_tag = t\<rparr>)))"

fun readPages :: "env \<Rightarrow> data_entry list \<Rightarrow> error + page list" where
  "readPages e [] = Inr []"
| "readPages e (d # ds) =
     bindE (readPage e d) (\<lambda>p. bindE (readPages e ds) (\<lambda>ps. Inr (p # ps)))"

fun numberSections :: "nat \<Rightarrow> page \<Rightarrow> page_section list \<Rightarrow> document list" where
  \<comment> \<open>\<^verbatim>\<open>sections.map((section) => ({ id: nextDocId++, ... }))\<close>\<close>
  "numberSections nextDocId pg [] = []"
| "numberSections nextDocId pg (s # ss) =
     \<lparr>doc_id = nextDocId,
      pageTitle = p_pageTitle (pg_parsed pg),
      pageRoute = pg_url pg,
      sectionRoute = pg_url pg @ sec_hash s,
      sectionTitle = sec_title s,
      sectionContent = sec_content s,
      sectionTags = sec_tags s,
      docusaurusTag = pg_tag pg,
      docSidebarParentCategories = p_docSidebarParentCategories (pg_parsed pg),
      doc_type = pg_type pg\<rparr>
     # numberSections (Suc nextDocId) pg ss"

text \<open>
  Every callback of \<^verbatim>\<open>data.map(async ...)\<close> runs up to its \<^verbatim>\<open>await readFileAsync\<close> and
  is resumed when its read completes; from there to its \<^verbatim>\<open>return\<close> it runs without
  interruption. The state is the shared counter \<^verbatim>\<open>nextDocId\<close> and the result array of
  \<^verbatim>\<open>Promise.all\<close>, which keeps the positions of \<^verbatim>\<open>data\<close>.
\<close>

fun complete :: "page list \<Rightarrow> nat list \<Rightarrow> nat \<times> document list list \<Rightarrow> nat \<times> document list list" where
  "complete pages [] st = st"
| "complete pages (k # ks) (nextDocId, results) =
     (if k < length pages
      then complete pages ks
             (nextDocId + length (p_sections (pg_parsed (pages ! k))),
              results[k := numberSections nextDocId (pages ! k) (p_sections (pg_parsed (pages ! k)))])
      else complete pages ks (nextDocId, results))"

definition resolved :: "nat list \<Rightarrow> page list \<Rightarrow> document list list" where
  "resolved sched pages = snd (complete pages sched (1, replicate (length pages) []))"

definition assemble :: "nat list \<Rightarrow> page list \<Rightarrow> document list" where
  \<comment> \<open>\<^verbatim>\<open>(await Promise.all(...)).flat()\<close>\<close>
  "assemble sched pages = concat (resolved sched pages)"

subsection \<open>Grouping by tag\<close>

definition object_prototype_keys :: "string list" where
  \<comment> \<open>the property names that the accumulator \<^verbatim>\<open>{}\<close> inherits from \<^verbatim>\<open>Object.prototype\<close>\<close>
  "object_prototype_keys =
     [''constructor'', ''__defineGetter__'', ''__defineSetter__'', ''hasOwnProperty'',
      ''__lookupGetter__'', ''__lookupSetter__'', ''isPrototypeOf'', ''propertyIsEnumerable'',
      ''toString'', ''valueOf'', ''__proto__'', ''toLocaleString'']"

definition groupStep ::
  "(string \<times> document list) list \<Rightarrow> document \<Rightarrow> error + (string \<times> document list) list" where
  \<comment> \<open>\<^verbatim>\<open>acc[tag] = acc[tag] ?? []; acc[tag].push(doc)\<close>: an inherited property is not
      nullish, it is kept, and it has no \<^verbatim>\<open>push\<close>\<close>
  "groupStep acc doc =
     (if docusaurusTag doc \<in> set object_prototype_keys then Inl PushIsNotAFunction
      else Inr (AList.update (docusaurusTag doc)
                  ((case map_of acc (docusaurusTag doc) of None \<Rightarrow> [] | Some ds \<Rightarrow> ds) @ [doc])
                  acc))"

fun reduceGroups ::
  "(string \<times> document list) list \<Rightarrow> document list \<Rightarrow> error + (string \<times> document list) list" where
  "reduceGroups acc [] = Inr acc"
| "reduceGroups acc (d # ds) = bindE (groupStep acc d) (\<lambda>acc'. reduceGroups acc' ds)"

definition documentsByDocusaurusTag ::
  "document list \<Rightarrow> error + (string \<times> document list) list" where
  "documentsByDocusaurusTag documents = reduceGroups [] documents"

text \<open>
  The association list keeps the keys in the order of their first insertion.
  \<^verbatim>\<open>Object.entries\<close> lists keys that look like array indices before the others; that
  order only decides which index is built first, so the lists below are read as mappings.
\<close>

subsection \<open>Building and serialising one index\<close>

fun join :: "string \<Rightarrow> string list \<Rightarrow> string" where
  "join sep [] = ''''"
| "join sep [x] = x"
| "join sep (x # y # ys) = x @ sep @ join sep (y # ys)"

definition digit :: "nat \<Rightarrow> char" where
  "digit n = char_of (48 + n)"

fun toString :: "nat \<Rightarrow> string" where
  \<comment> \<open>\<^verbatim>\<open>id.toString()\<close> of a non-negative integer below \<open>10\<^sup>2\<^sup>1\<close>: its decimal digits\<close>
  "toString n = (if n < 10 then [digit n] else toString (n div 10) @ [digit (n mod 10)])"

declare toString.simps [simp del]

datatype language_use = NoLanguage | UseLanguage string | UseMultiLanguage "string list"

record index_document =
  ref_id :: string
  title :: string
  content :: string
  tags :: "string list"
  sidebarParentCategories :: "string option"

text \<open>
  The index is what the configuration function tells the \<^verbatim>\<open>lunr\<close> builder: the language
  plugin, the two ranking parameters, the reference field, the fields, and the documents
  added, in order. The documents a serialised index refers to are the ones added: the
  builder records a field vector under the reference of each.
\<close>

record lunr_index =
  idx_use :: language_use
  idx_k1 :: real
  idx_b :: real
  idx_ref :: string
  idx_fields :: "string list"
  idx_documents :: "index_document list"

record my_document =
  my_id :: nat
  my_pageTitle :: string
  my_sectionTitle :: string
  my_sectionRoute :: string
  my_type :: content_type

record artifact =
  art_file :: string
  art_documents :: "my_document list"
  art_index :: lunr_index

definition languageUse :: "language \<Rightarrow> language_use" where
  "languageUse l =
     (if l \<noteq> Single ''en''
      then (case l of Multiple cs \<Rightarrow> UseMultiLanguage cs | Single c \<Rightarrow> UseLanguage c)
      else NoLanguage)"

definition sidebarField :: "nat \<Rightarrow> string list option \<Rightarrow> string option" where
  "sidebarField n cats =
     (if n > 0 then (case cats of None \<Rightarrow> None | Some cs \<Rightarrow> Some (join '' '' (take n (rev cs))))
      else None)"

definition addDocument :: "options \<Rightarrow> document \<Rightarrow> index_document" where
  "addDocument v d =
     \<lparr>ref_id = toString (doc_id d),
      title = sectionTitle d,
      content = sectionContent d,
      tags = sectionTags d,
      sidebarParentCategories =
        sidebarField (indexDocSidebarParentCategories v) (docSidebarParentCategories d)\<rparr>"

definition buildIndex :: "options \<Rightarrow> document list \<Rightarrow> lunr_index" where
  "buildIndex v documents =
     \<lparr>idx_use = languageUse (language v),
      idx_k1 = lunr_k1 v,
      idx_b = lunr_b v,
      idx_ref = ''id'',
      idx_fields = [''title'', ''content'', ''tags'']
        @ (if indexDocSidebarParentCategories v > 0 then [''sidebarParentCategories''] else []),
      idx_documents = map (addDocument v) documents\<rparr>"

definition toMyDocument :: "options \<Rightarrow> document \<Rightarrow> my_document" where
  "toMyDocument v d =
     \<lparr>my_id = doc_id d,
      my_pageTitle =
        (case docSidebarParentCategories d of
           Some cs \<Rightarrow>
             if includeParentCategoriesInPageTitle v \<and> length cs > 0
             then join '' > '' (cs @ [pageTitle d]) else pageTitle d
         | None \<Rightarrow> pageTitle d),
      my_sectionTitle = sectionTitle d,
      my_sectionRoute = sectionRoute d,
      my_type = doc_type d\<rparr>"

definition writeArtifact :: "options \<Rightarrow> env \<Rightarrow> string \<Rightarrow> string \<times> document list \<Rightarrow> string \<times> artifact" where
  "writeArtifact v e outDir g =
     (fst g,
      \<lparr>art_file = path_join e [outDir, ''search-index-'' @ fst g @ ''.json''],
       art_documents = map (toMyDocument v) (snd g),
       art_index = buildIndex v (snd g)\<rparr>)"

subsection \<open>The build hook\<close>

record build =
  routesPaths :: "string list"
  outDir :: string
  baseUrl :: string
  trailingSlash :: "bool option"
  plugins :: "loaded_plugin list"

definition gatherData :: "options \<Rightarrow> env \<Rightarrow> build \<Rightarrow> error + data_entry list" where
  "gatherData v e b =
     (let docsPlugins = values_of (buildPluginMap (plugins b) ''docusaurus-plugin-content-docs'');
          blogPlugins = values_of (buildPluginMap (plugins b) ''docusaurus-plugin-content-blog'');
          pagesPlugins = values_of (buildPluginMap (plugins b) ''docusaurus-plugin-content-pages'')
      in if indexDocs v \<and> docsPlugins = [] then Inl NoDocsPlugin
         else if indexBlog v \<and> blogPlugins = [] then Inl NoBlogPlugin
         else if indexPages v \<and> pagesPlugins = [] then Inl NoPagesPlugin
         else bindE (classifyAll v docsPlugins blogPlugins pagesPlugins (baseUrl b) (routesPaths b))
                (\<lambda>cs. Inr (map (toFile e (outDir b) (trailingSlash b)) cs)))"

definition postBuild :: "options \<Rightarrow> env \<Rightarrow> build \<Rightarrow> error + (string \<times> artifact) list" where
  "postBuild v e b =
     bindE (gatherData v e b) (\<lambda>data.
       bindE (readPages e data) (\<lambda>pages.
         bindE (documentsByDocusaurusTag (assemble (completion e) pages)) (\<lambda>groups.
           Inr (map (writeArtifact v e (outDir b)) groups))))"

section \<open>The built-ins that the generated tokenizer calls\<close>

text \<open>
  The module generated for \<^verbatim>\<open>zh\<close> exports an arrow function that calls \<^verbatim>\<open>trim\<close>,
  \<^verbatim>\<open>toLowerCase\<close>, \<^verbatim>\<open>split\<close> and \<^verbatim>\<open>filter\<close> on its input. Its input is arbitrary text,
  so there a string is the list of its UTF-16 code units. \<^verbatim>\<open>trim\<close> and the default
  separator, the literal \<^verbatim>\<open>/[\s\-]+/\<close> of the source, are fixed by the language and are
  defined here; the case mapping of \<^verbatim>\<open>toLowerCase\<close> is a table of the runtime and stays a
  parameter, and a configured separator brings its own \<open>re_split\<close>.
\<close>

definition isWhiteSpace :: "16 word \<Rightarrow> bool" where
  \<comment> \<open>the white space and line terminators that \<^verbatim>\<open>trim\<close> strips and \<^verbatim>\<open>\s\<close> matches\<close>
  "isWhiteSpace c =
     (c \<in> set [0x09, 0x0A, 0x0B, 0x0C, 0x0D, 0x20, 0xA0, 0x1680, 0x2028, 0x2029, 0x202F,
                0x205F, 0x3000, 0xFEFF]
      \<or> (0x2000 \<le> c \<and> c \<le> 0x200A))"

definition trim :: "jsstring \<Rightarrow> jsstring" where
  "trim s = rev (dropWhile isWhiteSpace (rev (dropWhile isWhiteSpace s)))"

definition isSeparator :: "16 word \<Rightarrow> bool" where
  \<comment> \<open>the class \<^verbatim>\<open>[\s\-]\<close>\<close>
  "isSeparator c = (isWhiteSpace c \<or> c = 0x2D)"

function splitRuns :: "(16 word \<Rightarrow> bool) \<Rightarrow> jsstring \<Rightarrow> jsstring \<Rightarrow> jsstring list" where
  \<comment> \<open>\<^verbatim>\<open>split\<close> for a pattern that is one or more code units of a class: the class, the
      piece collected since the last match, and the rest of the string\<close>
  "splitRuns cls piece [] = [piece]"
| "splitRuns cls piece (c # cs) =
     (if cls c then piece # splitRuns cls [] (dropWhile cls cs)
      else splitRuns cls (piece @ [c]) cs)"
  by pat_completeness auto
termination
  by (relation "measure (\<lambda>(cls, piece, s). length s)")
     (auto simp: length_dropWhile_le less_Suc_eq_le)

definition defaultSeparator :: regexp where
  \<comment> \<open>the literal \<^verbatim>\<open>/[\s\-]+/\<close>\<close>
  "defaultSeparator =
     \<lparr>re_toString = ''/['' @ [CHR 0x5C] @ ''s'' @ [CHR 0x5C] @ ''-]+/'',
      re_split = splitRuns isSeparator []\<rparr>"

section \<open>Plugin construction and the generated tokenizer module\<close>

record plugin =
  generated :: string
  vars :: options   \<comment> \<open>the destructured options that the hooks close over, \<open>language\<close> reassigned\<close>

text \<open>
  Construction also loads the language files it names in the generated text and, when a
  separator is configured, stores it in \<^verbatim>\<open>lunr.tokenizer.separator\<close>; both happen in the
  \<^verbatim>\<open>lunr\<close> module and are visible here through \<open>generated\<close> and \<open>vars\<close>.
\<close>

definition normalizeLanguage :: "language \<Rightarrow> language" where
  \<comment> \<open>\<^verbatim>\<open>if (Array.isArray(language) && language.length === 1) language = language[0]\<close>\<close>
  "normalizeLanguage l = (case l of Multiple [c] \<Rightarrow> Single c | _ \<Rightarrow> l)"

definition handleLangCode :: "string \<Rightarrow> error + string" where
  \<open>handleLangCode code =
     (if code = ''jp'' then Inl DeprecatedJp
      else Inr
        ((if code = ''ja'' then ''require("lunr-languages/tinyseg")(lunr);\<newline>''
          else if code = ''th'' \<or> code = ''hi''
               then ''lunr.wordcut = require("lunr-languages/wordcut");\<newline>''
               else '''')
         @ ''require("lunr-languages/lunr.'' @ code @ ''")(lunr);\<newline>''))\<close>

fun handleLangCodes :: "string \<Rightarrow> string list \<Rightarrow> error + string" where
  \<comment> \<open>\<^verbatim>\<open>codes.forEach((code) => { generated += handleLangCode(code); })\<close>\<close>
  "handleLangCodes gen [] = Inr gen"
| "handleLangCodes gen (code # codes) =
     bindE (handleLangCode code) (\<lambda>t. handleLangCodes (gen @ t) codes)"

definition header :: "bool \<Rightarrow> string" where
  \<open>header styleNone =
     ''// THIS FILE IS AUTOGENERATED\<newline>'' @ ''// DO NOT EDIT THIS FILE!\<newline>\<newline>''
     @ (if \<not> styleNone
        then ''import "@algolia/autocomplete-theme-classic";\<newline>'' @ ''import "./index.css";\<newline>''
        else '''')
     @ ''const lunr = require("../../../lunr.js");\<newline>''\<close>

definition loadLanguages :: "language \<Rightarrow> string \<Rightarrow> error + string" where
  \<open>loadLanguages l gen =
     (if l \<noteq> Single ''en'' then
        (case l of
           Multiple codes \<Rightarrow>
             bindE (handleLangCodes (gen @ ''require("lunr-languages/lunr.stemmer.support")(lunr);\<newline>'')
                      (filter (\<lambda>code. code \<noteq> ''en'') codes))
               (\<lambda>g. Inr (g @ ''require("lunr-languages/lunr.multi")(lunr);\<newline>''))
         | Single code \<Rightarrow>
             bindE (handleLangCode code)
               (\<lambda>t. Inr (gen @ ''require("lunr-languages/lunr.stemmer.support")(lunr);\<newline>'' @ t)))
      else Inr gen)\<close>

definition exportTokenize :: "language \<Rightarrow> regexp option \<Rightarrow> error + string" where
  \<open>exportTokenize l sep =
     (if l = Single ''zh'' then
        Inr (''export const tokenize = (input) => input.trim().toLowerCase()\<newline>  .split(''
             @ re_toString (case sep of Some r \<Rightarrow> r | None \<Rightarrow> defaultSeparator)
             @ '')\<newline>  .filter(each => !!each);\<newline>'')
      else if l = Single ''ja'' \<or> l = Single ''th'' then
        (if sep \<noteq> None then Inl SeparatorNotSupported
         else Inr (''export const tokenize = (input) => lunr[''
                   @ (if l = Single ''th'' then ''"th"'' else ''"ja"'')
                   @ ''].tokenizer(input)\<newline>  .map(token => token''
                   @ (if l = Single ''th'' then '''' else ''.str'') @ '');\<newline>''))
      else
        Inr ((case sep of
                Some r \<Rightarrow> ''lunr.tokenizer.separator = '' @ re_toString r @ '';\<newline>''
              | None \<Rightarrow> '''')
             @ ''export const tokenize = (input) => lunr.tokenizer(input)\<newline>  .map(token => token.str);\<newline>''))\<close>

definition cmfcmfDocusaurusSearchLocal :: "options \<Rightarrow> error + plugin" where
  \<open>cmfcmfDocusaurusSearchLocal opts =
     (let l = normalizeLanguage (language opts) in
      bindE (loadLanguages l (header (style_none opts))) (\<lambda>g1.
        bindE (exportTokenize l (lunr_tokenizerSeparator opts)) (\<lambda>t.
          Inr \<lparr>generated = g1 @ t @ ''export const mylunr = lunr;\<newline>'',
               vars = opts\<lparr>language := l\<rparr>\<rparr>)))\<close>

subsection \<open>What the tokenizer generated for Chinese computes\<close>

text \<open>
  The arrow function exported for \<^verbatim>\<open>zh\<close> is a chain of four method calls on its
  parameter. \<open>tokenizeCalls\<close> is that chain, \<open>printCall\<close> writes a call the way the
  template of the source lays it out, and \<open>call\<close> is what a call does to a string or
  an array; a method that the value does not have is a \<^verbatim>\<open>TypeError\<close>, here \<open>None\<close>.
\<close>

datatype jsvalue = Str jsstring | Arr "jsstring list"

datatype method_call = Trim | ToLowerCase | Split regexp | FilterTruthy


fun call :: "(jsstring \<Rightarrow> jsstring) \<Rightarrow> method_call \<Rightarrow> jsvalue \<Rightarrow> jsvalue option" where
  "call lower Trim (Str s) = Some (Str (trim s))"
| "call lower ToLowerCase (Str s) = Some (Str (lower s))"
| "call lower (Split r) (Str s) = Some (Arr (re_split r s))"
| "call lower FilterTruthy (Arr xs) = Some (Arr (filter (\<lambda>each. each \<noteq> []) xs))"
| "call lower m v = None"

fun callAll :: "(jsstring \<Rightarrow> jsstring) \<Rightarrow> method_call list \<Rightarrow> jsvalue \<Rightarrow> jsvalue option" where
  "callAll lower [] v = Some v"
| "callAll lower (m # ms) v =
     (case call lower m v of None \<Rightarrow> None | Some v' \<Rightarrow> callAll lower ms v')"

definition tokenizeCalls :: "regexp option \<Rightarrow> method_call list" where
  "tokenizeCalls sep =
     [Trim, ToLowerCase, Split (case sep of Some r \<Rightarrow> r | None \<Rightarrow> defaultSeparator), FilterTruthy]"

definition tokenize :: "(jsstring \<Rightarrow> jsstring) \<Rightarrow> regexp option \<Rightarrow> jsstring \<Rightarrow> jsvalue option" where
  \<comment> \<open>the exported \<^verbatim>\<open>tokenize\<close>, given the case mapping of the runtime\<close>
  "tokenize lower sep input = callAll lower (tokenizeCalls sep) (Str input)"


section \<open>Notions used to state the properties\<close>

definition underPrefix :: "string \<Rightarrow> string \<Rightarrow> bool" where
  \<comment> \<open>the value of \<open>urlMatchesPrefix\<close> when it does not throw\<close>
  "underPrefix r p = (p = '''' \<or> r = p \<or> startsWith r (p @ ''/''))"

definition firstMatch :: "string \<Rightarrow> loaded_plugin list \<Rightarrow> loaded_plugin option" where
  \<comment> \<open>the first registered instance whose base path the route is under\<close>
  "firstMatch r ps = find (\<lambda>p. underPrefix r (basePath p)) ps"

definition underTags :: "string \<Rightarrow> loaded_plugin \<Rightarrow> bool" where
  "underTags r p = underPrefix r (trimLeadingSlash (basePath p @ ''/'' @ tagsPath p))"

definition underDebug :: "string \<Rightarrow> loaded_plugin \<Rightarrow> bool" where
  "underDebug r p = underPrefix r (trimLeadingSlash (basePath p @ ''/__docusaurus''))"

definition decidedBy ::
  "options \<Rightarrow> loaded_plugin list \<Rightarrow> loaded_plugin list \<Rightarrow> loaded_plugin list \<Rightarrow> classified \<Rightarrow> bool" where
  \<comment> \<open>the type of a classified route is the first enabled type, in the order docs, blog,
      page, with an instance that matches, and the first such instance does not exclude it\<close>
  "decidedBy opts dp bp pp c =
     (let r = c_route c in
      case c_type c of
        Docs \<Rightarrow> indexDocs opts \<and>
          (case firstMatch r dp of None \<Rightarrow> False
           | Some p \<Rightarrow> \<not> underTags r p \<and> \<not> underDebug r p)
      | Blog \<Rightarrow> (indexDocs opts \<longrightarrow> firstMatch r dp = None) \<and> indexBlog opts \<and>
          (case firstMatch r bp of None \<Rightarrow> False
           | Some p \<Rightarrow> r \<noteq> basePath p \<and> \<not> underTags r p \<and> \<not> underDebug r p)
      | Page \<Rightarrow> (indexDocs opts \<longrightarrow> firstMatch r dp = None) \<and>
          (indexBlog opts \<longrightarrow> firstMatch r bp = None) \<and> indexPages opts \<and>
          (case firstMatch r pp of None \<Rightarrow> False | Some p \<Rightarrow> \<not> underDebug r p))"

definition sectionCount :: "page \<Rightarrow> nat" where
  "sectionCount pg = length (p_sections (pg_parsed pg))"

definition idsBefore :: "page list \<Rightarrow> nat list \<Rightarrow> nat" where
  \<comment> \<open>the number of ids handed out while the reads listed in \<open>ks\<close> completed\<close>
  "idsBefore pages ks = sum_list (map (\<lambda>k. sectionCount (pages ! k)) ks)"

definition isSchedule :: "nat list \<Rightarrow> page list \<Rightarrow> bool" where
  \<comment> \<open>every issued read completes exactly once\<close>
  "isSchedule sched pages = (mset sched = mset [0..<length pages])"

definition fromDigits :: "string \<Rightarrow> nat" where
  "fromDigits s = foldl (\<lambda>a c. 10 * a + (of_char c - 48)) 0 s"


definition grouped :: "document list \<Rightarrow> (string \<times> document list) list \<Rightarrow> bool" where
  \<comment> \<open>\<open>g\<close> maps every tag of \<open>ds\<close>, once, to the documents of \<open>ds\<close> with that tag, in order\<close>
  "grouped ds g \<longleftrightarrow> distinct (map fst g)
     \<and> (\<forall>t. map_of g t = (if t \<in> docusaurusTag ` set ds
                            then Some (filter (\<lambda>d. docusaurusTag d = t) ds) else None))
     \<and> mset (concat (map snd g)) = mset ds"

definition summaryIds :: "error + (string \<times> artifact) list \<Rightarrow> error + (string \<times> nat list) list" where
  \<comment> \<open>per written artifact, the ids of its summaries in the order they are listed\<close>
  "summaryIds r = map_sum id (map (\<lambda>p. (fst p, map my_id (art_documents (snd p))))) r"

definition idAssociation ::
  "error + (string \<times> artifact) list \<Rightarrow> error + (string \<times> (nat \<times> string) list) list" where
  \<comment> \<open>per written artifact, which id stands for which section route\<close>
  "idAssociation r =
     map_sum id (map (\<lambda>p. (fst p, map (\<lambda>s. (my_id s, my_sectionRoute s)) (art_documents (snd p))))) r"

section \<open>Concrete sites\<close>

definition ex_options :: options where
  "ex_options =
     \<lparr>indexDocs = True, indexDocSidebarParentCategories = 0,
      includeParentCategoriesInPageTitle = False, indexBlog = False, indexPages = False,
      language = Single ''en'', style_none = False, lunr_tokenizerSeparator = None,
      lunr_k1 = 1.2, lunr_b = 0.75\<rparr>"

definition ex_separator :: regexp where
  \<comment> \<open>the separator \<^verbatim>\<open>/[,;]+/\<close>\<close>
  "ex_separator =
     \<lparr>re_toString = ''/[,;]+/'', re_split = splitRuns (\<lambda>c. c = 0x2C \<or> c = 0x3B) []\<rparr>"

definition docsAtDocs :: loaded_plugin where
  "docsAtDocs =
     \<lparr>plugin_name = ''docusaurus-plugin-content-docs'', options_id = ''default'',
      routeBasePath = ''docs'', tagsBasePath = ''tags''\<rparr>"

definition docsAtRoot :: loaded_plugin where
  \<comment> \<open>the docs plugin serving the site root, \<^verbatim>\<open>routeBasePath: '/'\<close>\<close>
  "docsAtRoot =
     \<lparr>plugin_name = ''docusaurus-plugin-content-docs'', options_id = ''default'',
      routeBasePath = ''/'', tagsBasePath = ''tags''\<rparr>"

definition blogAtBlog :: loaded_plugin where
  "blogAtBlog =
     \<lparr>plugin_name = ''docusaurus-plugin-content-blog'', options_id = ''default'',
      routeBasePath = ''blog'', tagsBasePath = ''tags''\<rparr>"

definition ex_document :: document where
  "ex_document =
     \<lparr>doc_id = 1, pageTitle = ''Install'', pageRoute = ''/docs/install'',
      sectionRoute = ''/docs/install'', sectionTitle = ''Install'', sectionContent = ''Run it.'',
      sectionTags = [], docusaurusTag = ''default'',
      docSidebarParentCategories = Some [''Guides'', ''Setup'', ''Install''], doc_type = Docs\<rparr>"

definition ex_env :: "nat list \<Rightarrow> env" where
  \<comment> \<open>two rendered pages of one section each; the argument is the order the reads complete in\<close>
  "ex_env sched =
     \<lparr>readFile = (\<lambda>f. if f = ''build/docs/a/index.html'' then Some ''A''
                      else if f = ''build/docs/b/index.html'' then Some ''B'' else None),
      html2text = (\<lambda>html ty u. Some \<lparr>p_pageTitle = html,
                     p_sections = [\<lparr>sec_hash = '''', sec_title = html, sec_content = '''', sec_tags = []\<rparr>],
                     p_docSidebarParentCategories = None\<rparr>),
      getDocusaurusTag = (\<lambda>html. Some ''default''),
      path_join = join ''/'',
      completion = sched\<rparr>"

definition ex_build :: build where
  "ex_build =
     \<lparr>routesPaths = [''/docs/a'', ''/docs/b''], outDir = ''build'', baseUrl = ''/'',
      trailingSlash = None, plugins = [docsAtDocs]\<rparr>"

definition ex_page :: "string \<Rightarrow> nat \<Rightarrow> page" where
  "ex_page u n =
     \<lparr>pg_url = u, pg_type = Docs,
      pg_parsed = \<lparr>p_pageTitle = u,
                   p_sections = replicate n \<lparr>sec_hash = '''', sec_title = u, sec_content = '''', sec_tags = []\<rparr>,
                   p_docSidebarParentCategories = None\<rparr>,
      pg_tag = ''default''\<rparr>"

definition ex_pageA :: page where
  \<comment> \<open>what \<open>ex_env\<close> makes of the first route of \<open>ex_build\<close>\<close>
  "ex_pageA =
     \<lparr>pg_url = ''/docs/a'', pg_type = Docs,
      pg_parsed = \<lparr>p_pageTitle = ''A'',
         p_sections = [\<lparr>sec_hash = '''', sec_title = ''A'', sec_content = '''', sec_tags = []\<rparr>],
         p_docSidebarParentCategories = None\<rparr>,
      pg_tag = ''default''\<rparr>"

definition ex_pageB :: page where
  "ex_pageB =
     \<lparr>pg_url = ''/docs/b'', pg_type = Docs,
      pg_parsed = \<lparr>p_pageTitle = ''B'',
         p_sections = [\<lparr>sec_hash = '''', sec_title = ''B'', sec_content = '''', sec_tags = []\<rparr>],
         p_docSidebarParentCategories = None\<rparr>,
      pg_tag = ''default''\<rparr>"

definition ex_artifact :: "string \<times> artifact" where
  \<comment> \<open>the one artifact of \<open>ex_build\<close> when the second read completes first\<close>
  "ex_artifact =
     writeArtifact ex_options (ex_env [1, 0]) ''build''
       (''default'', assemble [1, 0] [ex_pageA, ex_pageB])"

section \<open>Properties\<close>

subsection \<open>Evaluation and error plumbing\<close>

lemmas route_simps = urlMatchesPrefix_def startsWith_def endsWith_def suffix_def
  trimLeadingSlash_def trimTrailingSlash_def basePath_def tagsPath_def bindE_def orE_def
  enabled_def classifyRoute_def Let_def

lemmas construct_simps = cmfcmfDocusaurusSearchLocal_def Let_def bindE_def loadLanguages_def
  handleLangCode_def exportTokenize_def header_def normalizeLanguage_def

lemma bindE_Inr: "bindE m f = Inr y \<Longrightarrow> \<exists>x. m = Inr x \<and> f x = Inr y"
  by (cases m) (auto simp: bindE_def)

lemma orE_value: "orE a b = Inr z \<Longrightarrow> (\<exists>x. a = Inr x \<and> (if x then z else b = Inr z))"
  by (cases a) (auto simp: orE_def bindE_def split: if_splits)

lemma not_Excluded: "(v \<noteq> Excluded) = (v = Indexed)"
  by (cases v) auto

subsection \<open>Prefix matching\<close>

lemma urlMatchesPrefix_value: "urlMatchesPrefix r p = Inr b \<Longrightarrow> b = underPrefix r p"
  by (auto simp: urlMatchesPrefix_def underPrefix_def split: if_splits)

text \<open>
  C3, as the code has it. The prefix match accepts a route \<open>r\<close> for a non-empty prefix
  \<open>p\<close> exactly when \<open>p\<close> neither starts nor ends with a slash and \<open>r\<close> equals \<open>p\<close> or
  starts with \<open>p\<close> followed by a slash. The empty prefix, which is what the base path
  \<^verbatim>\<open>/\<close> is trimmed to, accepts every route. The route \<^verbatim>\<open>docsx\<close> does not match the
  prefix \<^verbatim>\<open>docs\<close>.
\<close>

theorem urlMatchesPrefix_exact_segment:
  "(p \<noteq> '''' \<longrightarrow>
      (urlMatchesPrefix r p = Inr True \<longleftrightarrow>
         \<not> startsWith p ''/'' \<and> \<not> endsWith p ''/'' \<and> (r = p \<or> (\<exists>rest. r = p @ ''/'' @ rest))))
   \<and> urlMatchesPrefix r '''' = Inr True
   \<and> urlMatchesPrefix ''docsx'' ''docs'' = Inr False"
  by (auto simp: urlMatchesPrefix_def startsWith_def endsWith_def prefix_def suffix_def)

theorem urlMatchesPrefix_exact_segment_witness:
  "''docs'' \<noteq> '''' \<and> urlMatchesPrefix ''docs/intro'' ''docs'' = Inr True
   \<and> urlMatchesPrefix ''docsx'' ''docs'' = Inr False"
  using urlMatchesPrefix_exact_segment [of "''docs''" "''docs/intro''"]
  by (simp add: startsWith_def endsWith_def suffix_def)

text \<open>
  C3 as stated fails for the empty prefix: \<^verbatim>\<open>docsx\<close> is accepted although it neither
  equals the prefix nor starts with the prefix followed by a slash.
\<close>

theorem urlMatchesPrefix_empty_prefix_counterexample:
  "urlMatchesPrefix ''docsx'' '''' = Inr True
   \<and> ''docsx'' \<noteq> '''' \<and> \<not> startsWith ''docsx'' ('''' @ ''/'')"
  by (simp add: urlMatchesPrefix_def startsWith_def endsWith_def suffix_def)

text \<open>
  The earlier JavaScript module, which has no \<open>urlMatchesPrefix\<close>, takes \<^verbatim>\<open>docsx\<close> for a
  docs route under the base path \<^verbatim>\<open>docs\<close>.
\<close>

lemma legacy_prefix_is_not_a_segment:
  "legacyClassifyRoute False True True ''blog'' ''docs'' ''/'' ''/docsx''
     = Inr (Some \<lparr>c_route = ''docsx'', c_url = ''/docsx'', c_type = Docs\<rparr>)"
  by (simp add: legacyClassifyRoute_def startsWith_def Let_def)

subsection \<open>Route classification\<close>

lemma docsLoop_sound:
  "docsLoop r ps = Inr res \<Longrightarrow>
     (case res of
        None \<Rightarrow> firstMatch r ps = None
      | Some v \<Rightarrow> (\<exists>p. firstMatch r ps = Some p
                        \<and> (v = Indexed \<longleftrightarrow> \<not> underTags r p \<and> \<not> underDebug r p)))"
proof (induction ps)
  case Nil
  then show ?case by (simp add: firstMatch_def)
next
  case (Cons p ps)
  from Cons.prems obtain m where m: "urlMatchesPrefix r (basePath p) = Inr m"
    and rest: "(if m then
         bindE (orE (urlMatchesPrefix r (trimLeadingSlash (basePath p @ ''/'' @ tagsPath p)))
                    (urlMatchesPrefix r (trimLeadingSlash (basePath p @ ''/__docusaurus''))))
           (\<lambda>skip. Inr (Some (if skip then Excluded else Indexed)))
       else docsLoop r ps) = Inr res"
    by (auto dest!: bindE_Inr)
  have mv: "m = underPrefix r (basePath p)" using m by (rule urlMatchesPrefix_value)
  show ?case
  proof (cases m)
    case False
    with rest have "docsLoop r ps = Inr res" by simp
    from Cons.IH [OF this] False mv show ?thesis
      by (auto simp: firstMatch_def split: option.splits)
  next
    case True
    with rest obtain skip where
      s: "orE (urlMatchesPrefix r (trimLeadingSlash (basePath p @ ''/'' @ tagsPath p)))
              (urlMatchesPrefix r (trimLeadingSlash (basePath p @ ''/__docusaurus''))) = Inr skip"
      and res: "res = Some (if skip then Excluded else Indexed)"
      by (auto dest!: bindE_Inr)
    from s have "skip = (underTags r p \<or> underDebug r p)"
      by (auto dest!: orE_value urlMatchesPrefix_value simp: underTags_def underDebug_def
          split: if_splits)
    with res True mv show ?thesis
      by (auto simp: firstMatch_def)
  qed
qed

lemma blogLoop_sound:
  "blogLoop r ps = Inr res \<Longrightarrow>
     (case res of
        None \<Rightarrow> firstMatch r ps = None
      | Some v \<Rightarrow> (\<exists>p. firstMatch r ps = Some p \<and>
           (v = Indexed \<longleftrightarrow> r \<noteq> basePath p \<and> \<not> underTags r p \<and> \<not> underDebug r p)))"
proof (induction ps)
  case Nil
  then show ?case by (simp add: firstMatch_def)
next
  case (Cons p ps)
  from Cons.prems obtain m where m: "urlMatchesPrefix r (basePath p) = Inr m"
    and rest: "(if m then
         bindE (orE (Inr (r = basePath p))
                 (orE (urlMatchesPrefix r (trimLeadingSlash (basePath p @ ''/'' @ tagsPath p)))
                      (urlMatchesPrefix r (trimLeadingSlash (basePath p @ ''/__docusaurus'')))))
           (\<lambda>skip. Inr (Some (if skip then Excluded else Indexed)))
       else blogLoop r ps) = Inr res"
    by (auto dest!: bindE_Inr)
  have mv: "m = underPrefix r (basePath p)" using m by (rule urlMatchesPrefix_value)
  show ?case
  proof (cases m)
    case False
    with rest have "blogLoop r ps = Inr res" by simp
    from Cons.IH [OF this] False mv show ?thesis
      by (auto simp: firstMatch_def split: option.splits)
  next
    case True
    with rest obtain skip where
      s: "orE (Inr (r = basePath p))
                 (orE (urlMatchesPrefix r (trimLeadingSlash (basePath p @ ''/'' @ tagsPath p)))
                      (urlMatchesPrefix r (trimLeadingSlash (basePath p @ ''/__docusaurus''))))
            = Inr skip"
      and res: "res = Some (if skip then Excluded else Indexed)"
      by (auto dest!: bindE_Inr)
    from s have "skip = (r = basePath p \<or> underTags r p \<or> underDebug r p)"
      by (auto dest!: orE_value urlMatchesPrefix_value simp: underTags_def underDebug_def
          split: if_splits)
    with res True mv show ?thesis
      by (auto simp: firstMatch_def)
  qed
qed

lemma pagesLoop_sound:
  "pagesLoop r ps = Inr res \<Longrightarrow>
     (case res of
        None \<Rightarrow> firstMatch r ps = None
      | Some v \<Rightarrow> (\<exists>p. firstMatch r ps = Some p \<and> (v = Indexed \<longleftrightarrow> \<not> underDebug r p)))"
proof (induction ps)
  case Nil
  then show ?case by (simp add: firstMatch_def)
next
  case (Cons p ps)
  from Cons.prems obtain m where m: "urlMatchesPrefix r (basePath p) = Inr m"
    and rest: "(if m then
         bindE (urlMatchesPrefix r (trimLeadingSlash (basePath p @ ''/__docusaurus'')))
           (\<lambda>skip. Inr (Some (if skip then Excluded else Indexed)))
       else pagesLoop r ps) = Inr res"
    by (auto dest!: bindE_Inr)
  have mv: "m = underPrefix r (basePath p)" using m by (rule urlMatchesPrefix_value)
  show ?case
  proof (cases m)
    case False
    with rest have "pagesLoop r ps = Inr res" by simp
    from Cons.IH [OF this] False mv show ?thesis
      by (auto simp: firstMatch_def split: option.splits)
  next
    case True
    with rest obtain skip where
      s: "urlMatchesPrefix r (trimLeadingSlash (basePath p @ ''/__docusaurus'')) = Inr skip"
      and res: "res = Some (if skip then Excluded else Indexed)"
      by (auto dest!: bindE_Inr)
    from s have "skip = underDebug r p"
      by (auto dest!: urlMatchesPrefix_value simp: underDebug_def)
    with res True mv show ?thesis
      by (auto simp: firstMatch_def)
  qed
qed

lemma docsLoop_None: "docsLoop r ps = Inr None \<Longrightarrow> firstMatch r ps = None"
  by (drule docsLoop_sound) simp

lemma docsLoop_Some: "docsLoop r ps = Inr (Some v) \<Longrightarrow>
   \<exists>p. firstMatch r ps = Some p \<and> (v = Indexed \<longleftrightarrow> \<not> underTags r p \<and> \<not> underDebug r p)"
  by (drule docsLoop_sound) simp

lemma blogLoop_None: "blogLoop r ps = Inr None \<Longrightarrow> firstMatch r ps = None"
  by (drule blogLoop_sound) simp

lemma blogLoop_Some: "blogLoop r ps = Inr (Some v) \<Longrightarrow>
   \<exists>p. firstMatch r ps = Some p \<and>
     (v = Indexed \<longleftrightarrow> r \<noteq> basePath p \<and> \<not> underTags r p \<and> \<not> underDebug r p)"
  by (drule blogLoop_sound) simp

lemma pagesLoop_Some: "pagesLoop r ps = Inr (Some v) \<Longrightarrow>
   \<exists>p. firstMatch r ps = Some p \<and> (v = Indexed \<longleftrightarrow> \<not> underDebug r p)"
  by (drule pagesLoop_sound) simp

lemma classifyRoute_sound:
  assumes "classifyRoute opts dp bp pp base u = Inr (Some c)"
  shows "c_url c = u \<and> u = base @ c_route c \<and> c_route c \<noteq> ''404.html''
         \<and> decidedBy opts dp bp pp c"
proof -
  define r where "r = drop (length base) u"
  from assms have pre: "startsWith u base" and n404: "r \<noteq> ''404.html''"
    by (auto simp: classifyRoute_def Let_def r_def split: if_splits)
  from pre have u: "u = base @ r"
    by (auto simp: startsWith_def prefix_def r_def)
  from assms pre n404 have
    "(c = \<lparr>c_route = r, c_url = u, c_type = Docs\<rparr> \<and> indexDocs opts
        \<and> docsLoop r dp = Inr (Some Indexed))
     \<or> (c = \<lparr>c_route = r, c_url = u, c_type = Blog\<rparr>
          \<and> (indexDocs opts \<longrightarrow> docsLoop r dp = Inr None)
          \<and> indexBlog opts \<and> blogLoop r bp = Inr (Some Indexed))
     \<or> (c = \<lparr>c_route = r, c_url = u, c_type = Page\<rparr>
          \<and> (indexDocs opts \<longrightarrow> docsLoop r dp = Inr None)
          \<and> (indexBlog opts \<longrightarrow> blogLoop r bp = Inr None)
          \<and> indexPages opts \<and> pagesLoop r pp = Inr (Some Indexed))"
    unfolding classifyRoute_def Let_def bindE_def enabled_def r_def [symmetric]
    by (auto simp: not_Excluded split: if_splits sum.splits option.splits)
  then show ?thesis
    using u n404
    by (auto simp: decidedBy_def
        dest!: docsLoop_Some docsLoop_None blogLoop_Some blogLoop_None pagesLoop_Some)
qed

text \<open>
  C4, as the code has it. Every route of the input yields at most one classified entry,
  in input order. The type of an entry is the first enabled type, in the order docs,
  blog, page, that has a registered instance whose base path the route is under; the
  first such instance decides. An entry is never the 404 page, never under the tags path
  or the \<^verbatim>\<open>__docusaurus\<close> path of the instance that decided it, and for a blog instance
  never its listing page. What the instances that did not decide would exclude is not
  looked at.
\<close>

theorem classification_decided_by_first_match:
  assumes "classifyAll opts dp bp pp base urls = Inr cs"
  shows "subseq (map c_url cs) urls
     \<and> (\<forall>c\<in>set cs. c_url c = base @ c_route c \<and> c_route c \<noteq> ''404.html''
                     \<and> decidedBy opts dp bp pp c)"
  using assms
proof (induction urls arbitrary: cs)
  case Nil
  then show ?case by simp
next
  case (Cons u urls)
  from Cons.prems obtain c cs' where c: "classifyRoute opts dp bp pp base u = Inr c"
    and cs': "classifyAll opts dp bp pp base urls = Inr cs'"
    and cs: "cs = (case c of None \<Rightarrow> [] | Some x \<Rightarrow> [x]) @ cs'"
    by (auto dest!: bindE_Inr)
  note IH = Cons.IH [OF cs']
  show ?case
  proof (cases c)
    case None
    with cs IH show ?thesis by auto
  next
    case (Some x)
    from classifyRoute_sound [OF c [unfolded Some]] Some cs IH show ?thesis by auto
  qed
qed

theorem classification_decided_by_first_match_witness:
  "classifyAll ex_options [docsAtDocs] [] [] ''/'' [''/docs/intro'', ''/docs/tags'', ''/404.html'']
     = Inr [\<lparr>c_route = ''docs/intro'', c_url = ''/docs/intro'', c_type = Docs\<rparr>]
   \<and> decidedBy ex_options [docsAtDocs] [] []
        \<lparr>c_route = ''docs/intro'', c_url = ''/docs/intro'', c_type = Docs\<rparr>"
proof -
  have run: "classifyAll ex_options [docsAtDocs] [] [] ''/''
       [''/docs/intro'', ''/docs/tags'', ''/404.html'']
     = Inr [\<lparr>c_route = ''docs/intro'', c_url = ''/docs/intro'', c_type = Docs\<rparr>]"
    by (simp add: route_simps ex_options_def docsAtDocs_def)
  from classification_decided_by_first_match [OF run] run show ?thesis by simp
qed

text \<open>
  C4 as stated fails when a docs instance serves the site root and a blog instance is
  registered at \<^verbatim>\<open>blog\<close> with both types enabled: the docs instance matches first, so
  the tag-listing page of the blog is classified, as a docs page.
\<close>

theorem blog_tags_page_classified_counterexample:
  "classifyRoute (ex_options\<lparr>indexBlog := True\<rparr>) [docsAtRoot] [blogAtBlog] [] ''/'' ''/blog/tags''
     = Inr (Some \<lparr>c_route = ''blog/tags'', c_url = ''/blog/tags'', c_type = Docs\<rparr>)"
  by (simp add: route_simps ex_options_def docsAtRoot_def blogAtBlog_def)

subsection \<open>Numbering the sections\<close>

lemma numberSections_ids: "map doc_id (numberSections n pg ss) = [n ..< n + length ss]"
proof (induction ss arbitrary: n)
  case Nil
  show ?case by simp
next
  case (Cons s ss)
  have "[n ..< n + length (s # ss)] = n # [Suc n ..< Suc n + length ss]"
    by (subst upt_rec) simp
  with Cons.IH [of "Suc n"] show ?case by simp
qed

lemma numberSections_erase:
  "map (\<lambda>d. d\<lparr>doc_id := 0\<rparr>) (numberSections n pg ss) = map (\<lambda>d. d\<lparr>doc_id := 0\<rparr>) (numberSections m pg ss)"
  by (induction ss arbitrary: n m) auto

lemma complete_length: "length (snd (complete pages ks st)) = length (snd st)"
  by (induction pages ks st rule: complete.induct) auto

lemma complete_untouched:
  "k \<notin> set ks \<Longrightarrow> snd (complete pages ks (n, res)) ! k = res ! k"
  by (induction ks arbitrary: n res) auto

lemma idsBefore_Cons: "idsBefore pages (k # ks) = sectionCount (pages ! k) + idsBefore pages ks"
  by (simp add: idsBefore_def)

lemma idsBefore_Nil: "idsBefore pages [] = 0"
  by (simp add: idsBefore_def)

lemma idsBefore_snoc: "idsBefore pages (ks @ [k]) = idsBefore pages ks + sectionCount (pages ! k)"
  by (simp add: idsBefore_def)

lemma complete_at:
  "distinct ks \<Longrightarrow> \<forall>k\<in>set ks. k < length pages \<Longrightarrow> length res = length pages \<Longrightarrow> j < length ks \<Longrightarrow>
   snd (complete pages ks (n, res)) ! (ks ! j) =
     numberSections (n + idsBefore pages (take j ks)) (pages ! (ks ! j))
       (p_sections (pg_parsed (pages ! (ks ! j))))"
proof (induction ks arbitrary: n res j)
  case Nil
  then show ?case by simp
next
  case (Cons k ks)
  show ?case
  proof (cases j)
    case 0
    with Cons.prems show ?thesis
      by (simp add: complete_untouched idsBefore_Nil)
  next
    case (Suc i)
    with Cons.prems have "snd (complete pages ks (n + sectionCount (pages ! k),
        res[k := numberSections n (pages ! k) (p_sections (pg_parsed (pages ! k)))])) ! (ks ! i)
      = numberSections (n + sectionCount (pages ! k) + idsBefore pages (take i ks)) (pages ! (ks ! i))
       (p_sections (pg_parsed (pages ! (ks ! i))))"
      by (intro Cons.IH) auto
    with Cons.prems Suc show ?thesis
      by (simp add: idsBefore_Cons sectionCount_def add.assoc)
  qed
qed

lemma isSchedule_facts:
  assumes "isSchedule sched pages"
  shows "distinct sched" "set sched = {0..<length pages}" "length sched = length pages"
proof -
  from assms have m: "mset sched = mset [0..<length pages]" by (simp add: isSchedule_def)
  from mset_eq_imp_distinct_iff [OF m] show "distinct sched" by simp
  from mset_eq_setD [OF m] show "set sched = {0..<length pages}" by simp
  from mset_eq_length [OF m] show "length sched = length pages" by simp
qed

lemma resolved_length: "length (resolved sched pages) = length pages"
  by (simp add: resolved_def complete_length)

lemma resolved_at:
  assumes "isSchedule sched pages" "j < length pages"
  shows "resolved sched pages ! (sched ! j) =
     numberSections (1 + idsBefore pages (take j sched)) (pages ! (sched ! j))
       (p_sections (pg_parsed (pages ! (sched ! j))))"
  using isSchedule_facts [OF assms(1)] assms(2)
  unfolding resolved_def by (intro complete_at) auto

lemma resolved_ids:
  assumes "isSchedule sched pages" "j < length pages"
  shows "map doc_id (resolved sched pages ! (sched ! j)) =
     [1 + idsBefore pages (take j sched) ..< 1 + idsBefore pages (take (Suc j) sched)]"
proof -
  from isSchedule_facts [OF assms(1)] assms(2) have "j < length sched" by simp
  then have "take (Suc j) sched = take j sched @ [sched ! j]"
    by (simp add: take_Suc_conv_app_nth)
  then show ?thesis
    by (simp add: resolved_at [OF assms] numberSections_ids idsBefore_snoc sectionCount_def)
qed

lemma schedule_order_ids:
  assumes "isSchedule sched pages" "j \<le> length pages"
  shows "concat (map (\<lambda>k. map doc_id (resolved sched pages ! k)) (take j sched))
     = [1 ..< 1 + idsBefore pages (take j sched)]"
  using assms(2)
proof (induction j)
  case 0
  show ?case by (simp add: idsBefore_Nil)
next
  case (Suc j)
  then have j: "j < length pages" by simp
  with isSchedule_facts [OF assms(1)] have "j < length sched" by simp
  then have t: "take (Suc j) sched = take j sched @ [sched ! j]"
    by (simp add: take_Suc_conv_app_nth)
  have le: "idsBefore pages (take j sched) \<le> idsBefore pages (take (Suc j) sched)"
    by (simp add: t idsBefore_snoc)
  have "concat (map (\<lambda>k. map doc_id (resolved sched pages ! k)) (take (Suc j) sched))
     = [1 ..< 1 + idsBefore pages (take j sched)]
       @ [1 + idsBefore pages (take j sched) ..< 1 + idsBefore pages (take (Suc j) sched)]"
    using Suc j by (simp add: t resolved_ids [OF assms(1) j, unfolded t])
  also have "\<dots> = [1 ..< 1 + idsBefore pages (take (Suc j) sched)]"
  proof -
    from le obtain d where d: "idsBefore pages (take (Suc j) sched) = idsBefore pages (take j sched) + d"
      by (auto simp: le_iff_add)
    show ?thesis
      unfolding d using upt_add_eq_append [of 1 "1 + idsBefore pages (take j sched)" d]
      by (simp add: add.assoc)
  qed
  finally show ?case .
qed

lemma mset_concat_map: "mset (concat (map f xs)) = (\<Sum>x\<in>#mset xs. mset (f x))"
  by (induction xs) auto

lemma assemble_concat:
  "map doc_id (assemble sched pages) = concat (map (\<lambda>k. map doc_id (resolved sched pages ! k)) [0..<length pages])"
proof -
  have "map (map doc_id) (resolved sched pages) = map (\<lambda>k. map doc_id (resolved sched pages ! k)) [0..<length pages]"
    by (rule nth_equalityI) (simp_all add: resolved_length)
  then show ?thesis
    by (simp only: assemble_def map_concat)
qed

lemma assemble_ids_mset:
  assumes "isSchedule sched pages"
  shows "mset (map doc_id (assemble sched pages)) = mset [1 ..< 1 + idsBefore pages sched]"
proof -
  let ?f = "\<lambda>k. map doc_id (resolved sched pages ! k)"
  have m: "mset [0..<length pages] = mset sched"
    using assms unfolding isSchedule_def by (rule sym)
  have "mset (map doc_id (assemble sched pages)) = (\<Sum>k\<in>#mset [0..<length pages]. mset (?f k))"
    by (simp only: assemble_concat mset_concat_map)
  also have "\<dots> = (\<Sum>k\<in>#mset sched. mset (?f k))"
    by (simp only: m)
  also have "\<dots> = mset (concat (map ?f sched))"
    by (simp only: mset_concat_map)
  also have "concat (map ?f sched) = [1 ..< 1 + idsBefore pages sched]"
    using schedule_order_ids [OF assms, of "length pages"] isSchedule_facts(3) [OF assms]
    by simp
  finally show ?thesis .
qed

lemma assemble_erase:
  assumes "isSchedule sched pages"
  shows "map (\<lambda>d. d\<lparr>doc_id := 0\<rparr>) (assemble sched pages)
    = concat (map (\<lambda>pg. map (\<lambda>d. d\<lparr>doc_id := 0\<rparr>) (numberSections 0 pg (p_sections (pg_parsed pg)))) pages)"
proof -
  have "map (map (\<lambda>d. d\<lparr>doc_id := 0\<rparr>)) (resolved sched pages)
      = map (\<lambda>pg. map (\<lambda>d. d\<lparr>doc_id := 0\<rparr>) (numberSections 0 pg (p_sections (pg_parsed pg)))) pages"
  proof (rule nth_equalityI)
    show "length (map (map (\<lambda>d. d\<lparr>doc_id := 0\<rparr>)) (resolved sched pages)) =
      length (map (\<lambda>pg. map (\<lambda>d. d\<lparr>doc_id := 0\<rparr>) (numberSections 0 pg (p_sections (pg_parsed pg)))) pages)"
      by (simp add: resolved_length)
  next
    fix i assume "i < length (map (map (\<lambda>d. d\<lparr>doc_id := 0\<rparr>)) (resolved sched pages))"
    then have i: "i < length pages" by (simp add: resolved_length)
    with isSchedule_facts [OF assms] have "i \<in> set sched" by simp
    then obtain j where j: "j < length sched" "sched ! j = i" by (auto simp: in_set_conv_nth)
    with isSchedule_facts(3) [OF assms] have "j < length pages" by simp
    from resolved_at [OF assms this] j
    have "resolved sched pages ! i = numberSections (1 + idsBefore pages (take j sched)) (pages ! i)
       (p_sections (pg_parsed (pages ! i)))" by simp
    then have "map (\<lambda>d. d\<lparr>doc_id := 0\<rparr>) (resolved sched pages ! i)
       = map (\<lambda>d. d\<lparr>doc_id := 0\<rparr>) (numberSections 0 (pages ! i) (p_sections (pg_parsed (pages ! i))))"
      by (simp only: numberSections_erase [of "1 + idsBefore pages (take j sched)" _ _ 0])
    with i
    show "map (map (\<lambda>d. d\<lparr>doc_id := 0\<rparr>)) (resolved sched pages) ! i =
       map (\<lambda>pg. map (\<lambda>d. d\<lparr>doc_id := 0\<rparr>) (numberSections 0 pg (p_sections (pg_parsed pg)))) pages ! i"
      by (simp add: resolved_length)
  qed
  then show ?thesis
    by (simp add: assemble_def map_concat)
qed

subsection \<open>Grouping\<close>

lemma update_concat_mset:
  "distinct (map fst al) \<Longrightarrow>
   mset (concat (map snd (AList.update k ((case map_of al k of None \<Rightarrow> [] | Some ds \<Rightarrow> ds) @ [d]) al)))
     = mset (concat (map snd al)) + {#d#}"
  by (induction al) (auto split: option.splits)

lemma groupStep_grouped:
  assumes "grouped pre acc" "groupStep acc d = Inr acc'"
  shows "grouped (pre @ [d]) acc'"
proof -
  let ?t = "docusaurusTag d"
  let ?old = "case map_of acc ?t of None \<Rightarrow> [] | Some ds \<Rightarrow> ds"
  from assms(2) have acc': "acc' = AList.update ?t (?old @ [d]) acc"
    by (auto simp: groupStep_def split: if_splits)
  from assms(1) have dist: "distinct (map fst acc)"
    and look: "\<And>t. map_of acc t = (if t \<in> docusaurusTag ` set pre then Some (filter (\<lambda>d. docusaurusTag d = t) pre) else None)"
    and ms: "mset (concat (map snd acc)) = mset pre"
    by (auto simp: grouped_def)
  have old: "?old = filter (\<lambda>x. docusaurusTag x = ?t) pre"
  proof (cases "?t \<in> docusaurusTag ` set pre")
    case True
    then show ?thesis by (simp add: look)
  next
    case False
    then have "filter (\<lambda>x. docusaurusTag x = ?t) pre = []"
      unfolding filter_empty_conv by (metis imageI)
    with False show ?thesis by (simp add: look)
  qed
  have 1: "distinct (map fst acc')"
    unfolding acc' using dist by (rule distinct_update)
  have 2: "map_of acc' t = (if t \<in> docusaurusTag ` set (pre @ [d])
       then Some (filter (\<lambda>x. docusaurusTag x = t) (pre @ [d])) else None)" for t
    unfolding acc' update_conv' old by (auto simp: look)
  have 3: "mset (concat (map snd acc')) = mset (pre @ [d])"
    unfolding acc' using update_concat_mset [OF dist] ms by simp
  from 1 2 3 show ?thesis by (simp only: grouped_def) blast
qed

lemma reduceGroups_grouped:
  "grouped pre acc \<Longrightarrow> reduceGroups acc ds = Inr g \<Longrightarrow> grouped (pre @ ds) g"
proof (induction ds arbitrary: pre acc)
  case Nil
  then show ?case by simp
next
  case (Cons d ds)
  from Cons.prems(2) obtain acc' where s: "groupStep acc d = Inr acc'" and r: "reduceGroups acc' ds = Inr g"
    by (auto dest!: bindE_Inr)
  from Cons.IH [OF groupStep_grouped [OF Cons.prems(1) s] r] show ?case by simp
qed

lemma reduceGroups_total:
  "\<forall>d\<in>set ds. docusaurusTag d \<notin> set object_prototype_keys \<Longrightarrow> \<exists>g. reduceGroups acc ds = Inr g"
  by (induction ds arbitrary: acc) (auto simp: bindE_def groupStep_def)

lemma reduceGroups_fails:
  "\<exists>d\<in>set ds. docusaurusTag d \<in> set object_prototype_keys \<Longrightarrow> reduceGroups acc ds = Inl PushIsNotAFunction"
  by (induction ds arbitrary: acc) (auto simp: bindE_def groupStep_def)

lemma documentsByDocusaurusTag_grouped:
  "documentsByDocusaurusTag ds = Inr g \<Longrightarrow> grouped ds g"
  unfolding documentsByDocusaurusTag_def
  using reduceGroups_grouped [of "[]" "[]" ds g] by (simp add: grouped_def)

lemma grouped_member:
  assumes "grouped ds g"
  shows "(t, xs) \<in> set g \<longleftrightarrow> t \<in> docusaurusTag ` set ds \<and> xs = filter (\<lambda>d. docusaurusTag d = t) ds"
proof -
  from assms have dist: "distinct (map fst g)" by (simp add: grouped_def)
  have "(t, xs) \<in> set g \<longleftrightarrow> map_of g t = Some xs"
    using dist by simp
  also have "\<dots> \<longleftrightarrow> t \<in> docusaurusTag ` set ds \<and> xs = filter (\<lambda>d. docusaurusTag d = t) ds"
    using assms by (auto simp: grouped_def)
  finally show ?thesis .
qed

lemma grouping_without_inherited_tags:
  assumes "\<forall>d\<in>set ds. docusaurusTag d \<notin> set object_prototype_keys"
  shows "\<exists>g. documentsByDocusaurusTag ds = Inr g
     \<and> distinct (map fst g)
     \<and> fst ` set g = docusaurusTag ` set ds
     \<and> (\<forall>(t, xs)\<in>set g. xs = filter (\<lambda>d. docusaurusTag d = t) ds)
     \<and> (\<forall>d\<in>set ds. \<exists>!p. p \<in> set g \<and> d \<in> set (snd p))
     \<and> mset (concat (map snd g)) = mset ds
     \<and> (ds = [] \<longrightarrow> g = [])"
proof -
  from reduceGroups_total [OF assms] obtain g where g: "documentsByDocusaurusTag ds = Inr g"
    by (auto simp: documentsByDocusaurusTag_def)
  note G = documentsByDocusaurusTag_grouped [OF g]
  note M = grouped_member [OF G]
  have a: "distinct (map fst g)" using G by (simp add: grouped_def)
  have b: "fst ` set g = docusaurusTag ` set ds"
  proof (rule set_eqI)
    fix t
    show "t \<in> fst ` set g \<longleftrightarrow> t \<in> docusaurusTag ` set ds"
    proof
      assume "t \<in> fst ` set g"
      then obtain xs where "(t, xs) \<in> set g" by auto
      with M show "t \<in> docusaurusTag ` set ds" by simp
    next
      assume "t \<in> docusaurusTag ` set ds"
      with M [of t "filter (\<lambda>d. docusaurusTag d = t) ds"]
      have "(t, filter (\<lambda>d. docusaurusTag d = t) ds) \<in> set g" by simp
      then show "t \<in> fst ` set g" by force
    qed
  qed
  have c: "\<forall>(t, xs)\<in>set g. xs = filter (\<lambda>d. docusaurusTag d = t) ds"
    using M by auto
  have d: "\<forall>d\<in>set ds. \<exists>!p. p \<in> set g \<and> d \<in> set (snd p)"
  proof
    fix d assume d: "d \<in> set ds"
    let ?p = "(docusaurusTag d, filter (\<lambda>x. docusaurusTag x = docusaurusTag d) ds)"
    show "\<exists>!p. p \<in> set g \<and> d \<in> set (snd p)"
    proof (rule ex1I [of _ ?p])
      from d M [of "docusaurusTag d" "snd ?p"] show "?p \<in> set g \<and> d \<in> set (snd ?p)" by simp
    next
      fix p assume p: "p \<in> set g \<and> d \<in> set (snd p)"
      obtain t xs where tx: "p = (t, xs)" by (cases p)
      with p M [of t xs] have "xs = filter (\<lambda>x. docusaurusTag x = t) ds" and "d \<in> set xs" by auto
      then have "t = docusaurusTag d" by auto
      with tx \<open>xs = _\<close> show "p = ?p" by simp
    qed
  qed
  have e: "mset (concat (map snd g)) = mset ds" using G by (simp add: grouped_def)
  have f: "ds = [] \<longrightarrow> g = []"
    using g by (auto simp: documentsByDocusaurusTag_def)
  from g a b c d e f show ?thesis by blast
qed


subsection \<open>References are decimal numerals\<close>

lemma of_char_digit: "n < 10 \<Longrightarrow> of_char (digit n) = 48 + n"
  by (simp add: digit_def)

lemma fromDigits_snoc: "fromDigits (s @ [c]) = 10 * fromDigits s + (of_char c - 48)"
  by (simp add: fromDigits_def)

lemma fromDigits_toString: "fromDigits (toString n) = n"
proof (induction n rule: toString.induct)
  case (1 n)
  show ?case
  proof (cases "n < 10")
    case True
    then show ?thesis
      by (subst toString.simps) (simp add: fromDigits_def of_char_digit)
  next
    case False
    with 1 have "fromDigits (toString (n div 10)) = n div 10" by simp
    with False show ?thesis
      by (subst toString.simps) (simp add: fromDigits_snoc of_char_digit)
  qed
qed

lemma toString_inj: "toString m = toString n \<Longrightarrow> m = n"
  by (metis fromDigits_toString)

subsection \<open>C5: grouping by tag\<close>

text \<open>
  C5 says that grouping places every document of every list in exactly one group. The
  accumulator of the reduction is the object literal \<^verbatim>\<open>{}\<close>, which inherits the
  properties of \<^verbatim>\<open>Object.prototype\<close>: for a document whose tag is \<^verbatim>\<open>constructor\<close> the
  lookup finds the inherited function, the nullish default is not taken, and the call
  of \<^verbatim>\<open>push\<close> throws. For every list without such a tag the claim holds, which is
  \<open>grouping_without_inherited_tags\<close> above.
\<close>

theorem grouping_throws_on_inherited_tag:
  "documentsByDocusaurusTag [ex_document\<lparr>docusaurusTag := ''constructor''\<rparr>]
     = Inl PushIsNotAFunction"
  by (simp add: documentsByDocusaurusTag_def groupStep_def object_prototype_keys_def bindE_def)

subsection \<open>C7: the ancestor-categories field\<close>

text \<open>
  C7, as the code has it. With an indexing depth \<open>N > 0\<close>, the index declares the field
  and the document added for every document of the partition carries it exactly when the
  list of ancestor categories of the document is defined. A list that is defined but
  empty gives the empty string. The value of the field is the list reversed, cut to the
  first \<open>N\<close> names and joined by spaces, which are the \<open>N\<close> names nearest to the document,
  nearest first. For the path Guides, Setup, Install and depth 2 it is
  \<^verbatim>\<open>Install Setup\<close>.
\<close>

theorem sidebar_field:
  assumes "0 < indexDocSidebarParentCategories v" and "i < length docs"
  shows "sidebarParentCategories (idx_documents (buildIndex v docs) ! i)
           = map_option (\<lambda>cs. join '' '' (take (indexDocSidebarParentCategories v) (rev cs)))
               (docSidebarParentCategories (docs ! i))
         \<and> (sidebarParentCategories (idx_documents (buildIndex v docs) ! i) \<noteq> None
              \<longleftrightarrow> docSidebarParentCategories (docs ! i) \<noteq> None)
         \<and> (docSidebarParentCategories (docs ! i) = Some []
              \<longrightarrow> sidebarParentCategories (idx_documents (buildIndex v docs) ! i) = Some '''')
         \<and> (\<forall>cs. take (indexDocSidebarParentCategories v) (rev cs)
                   = rev (drop (length cs - indexDocSidebarParentCategories v) cs))
         \<and> ''sidebarParentCategories'' \<in> set (idx_fields (buildIndex v docs))
         \<and> sidebarField 2 (Some [''Guides'', ''Setup'', ''Install'']) = Some ''Install Setup''"
proof -
  have field: "sidebarParentCategories (idx_documents (buildIndex v docs) ! i)
      = sidebarField (indexDocSidebarParentCategories v) (docSidebarParentCategories (docs ! i))"
    using assms(2) by (simp add: buildIndex_def addDocument_def)
  have declared: "''sidebarParentCategories'' \<in> set (idx_fields (buildIndex v docs))"
    using assms(1) by (simp add: buildIndex_def)
  have example: "sidebarField 2 (Some [''Guides'', ''Setup'', ''Install'']) = Some ''Install Setup''"
    by (simp add: sidebarField_def)
  show ?thesis
    using assms(1) declared example unfolding field
    by (cases "docSidebarParentCategories (docs ! i)") (simp_all add: sidebarField_def take_rev)
qed

theorem sidebar_field_witness:
  "sidebarParentCategories
     (idx_documents (buildIndex (ex_options\<lparr>indexDocSidebarParentCategories := 2\<rparr>) [ex_document]) ! 0)
   = Some ''Install Setup''"
proof -
  have depth: "0 < indexDocSidebarParentCategories (ex_options\<lparr>indexDocSidebarParentCategories := 2\<rparr>)"
    by simp
  have pos: "0 < length [ex_document]"
    by simp
  from sidebar_field [OF depth pos, THEN conjunct1] show ?thesis
    by (simp add: ex_document_def)
qed

text \<open>
  C7 as stated fails for a document whose list of ancestor categories is defined but
  empty: the document has no ancestor category, the test of the list in the index
  builder is passed all the same, and the field is added, as the empty string.
\<close>

theorem sidebar_field_empty_list_counterexample:
  "docSidebarParentCategories (ex_document\<lparr>docSidebarParentCategories := Some []\<rparr>) = Some []
   \<and> sidebarParentCategories
       (idx_documents
          (buildIndex (ex_options\<lparr>indexDocSidebarParentCategories := 2\<rparr>)
             [ex_document\<lparr>docSidebarParentCategories := Some []\<rparr>]) ! 0)
     = Some ''''"
  by (simp add: buildIndex_def addDocument_def sidebarField_def ex_options_def ex_document_def)

subsection \<open>C10: a language array of one element\<close>

lemma normalizeLanguage_single [simp]:
  "normalizeLanguage (Multiple [c]) = Single c" "normalizeLanguage (Single c) = Single c"
  by (simp_all add: normalizeLanguage_def)

text \<open>
  C10. Constructing the plugin with the language array \<open>[c]\<close> gives the same result
  as constructing it with the string \<open>c\<close>: the same generated module text, the same
  variables for the hooks, the same error if there is one. The index is then built with
  the plugin of the single language (none for English), never with the multi-language
  one.
\<close>

theorem single_element_array:
  "cmfcmfDocusaurusSearchLocal (opts\<lparr>language := Multiple [c]\<rparr>)
     = cmfcmfDocusaurusSearchLocal (opts\<lparr>language := Single c\<rparr>)
   \<and> (\<forall>pl docs. cmfcmfDocusaurusSearchLocal (opts\<lparr>language := Multiple [c]\<rparr>) = Inr pl \<longrightarrow>
         idx_use (buildIndex (vars pl) docs) = (if c = ''en'' then NoLanguage else UseLanguage c))"
  by (auto simp: cmfcmfDocusaurusSearchLocal_def Let_def bindE_def buildIndex_def languageUse_def
      split: sum.splits)

theorem single_element_array_witness:
  "\<exists>pl. cmfcmfDocusaurusSearchLocal (ex_options\<lparr>language := Multiple [''fr'']\<rparr>) = Inr pl
     \<and> idx_use (buildIndex (vars pl) []) = UseLanguage ''fr''"
proof -
  obtain pl where pl: "cmfcmfDocusaurusSearchLocal (ex_options\<lparr>language := Multiple [''fr'']\<rparr>) = Inr pl"
    by (simp add: construct_simps ex_options_def)
  from single_element_array [where opts = ex_options and c = "''fr''"] pl
  have "idx_use (buildIndex (vars pl) []) = UseLanguage ''fr''" by auto
  with pl show ?thesis by blast
qed

subsection \<open>C9: a custom separator with Japanese or Thai\<close>

lemma handleLangCode_error: "handleLangCode c = Inl e \<Longrightarrow> e = DeprecatedJp"
  by (auto simp: handleLangCode_def split: if_splits)

lemma handleLangCodes_error: "handleLangCodes g cs = Inl e \<Longrightarrow> e = DeprecatedJp"
  by (induction cs arbitrary: g) (auto simp: bindE_def split: sum.splits dest: handleLangCode_error)

lemma loadLanguages_error: "loadLanguages l g = Inl e \<Longrightarrow> e = DeprecatedJp"
  by (auto simp: loadLanguages_def bindE_def split: if_splits language.splits sum.splits
      dest: handleLangCode_error handleLangCodes_error)

lemma loadLanguages_ja_th: "l = Single ''ja'' \<or> l = Single ''th'' \<Longrightarrow> \<exists>g'. loadLanguages l g = Inr g'"
  by (auto simp: loadLanguages_def bindE_def handleLangCode_def)

lemma exportTokenize_error:
  "exportTokenize l sep = Inl e \<longleftrightarrow>
     e = SeparatorNotSupported \<and> sep \<noteq> None \<and> (l = Single ''ja'' \<or> l = Single ''th'')"
  by (auto simp: exportTokenize_def)

lemma normalizeLanguage_cases:
  "normalizeLanguage l = Single c \<longleftrightarrow> l = Single c \<or> l = Multiple [c]"
  by (auto simp: normalizeLanguage_def split: language.splits list.splits)

text \<open>
  C9, as the code has it. Construction fails with the separator error exactly when a
  custom separator is set and the language is \<^verbatim>\<open>ja\<close> or \<^verbatim>\<open>th\<close>, given as a string or
  as an array of that one element. No plugin is returned then, so no hook can run. An
  array of two or more languages takes the branch that writes the separator into the
  generated module, whatever the languages are.
\<close>

theorem separator_error:
  "cmfcmfDocusaurusSearchLocal opts = Inl SeparatorNotSupported
     \<longleftrightarrow> lunr_tokenizerSeparator opts \<noteq> None
         \<and> language opts \<in> {Single ''ja'', Single ''th'', Multiple [''ja''], Multiple [''th'']}"
proof -
  let ?l = "normalizeLanguage (language opts)"
  have "cmfcmfDocusaurusSearchLocal opts = Inl SeparatorNotSupported
     \<longleftrightarrow> lunr_tokenizerSeparator opts \<noteq> None \<and> (?l = Single ''ja'' \<or> ?l = Single ''th'')"
  proof
    assume a: "cmfcmfDocusaurusSearchLocal opts = Inl SeparatorNotSupported"
    show "lunr_tokenizerSeparator opts \<noteq> None \<and> (?l = Single ''ja'' \<or> ?l = Single ''th'')"
    proof (cases "loadLanguages ?l (header (style_none opts))")
      case (Inl e)
      with a loadLanguages_error [OF Inl] show ?thesis
        by (simp add: cmfcmfDocusaurusSearchLocal_def Let_def bindE_def)
    next
      case (Inr g)
      with a have "exportTokenize ?l (lunr_tokenizerSeparator opts) = Inl SeparatorNotSupported"
        by (simp add: cmfcmfDocusaurusSearchLocal_def Let_def bindE_def split: sum.splits)
      then show ?thesis by (simp add: exportTokenize_error)
    qed
  next
    assume b: "lunr_tokenizerSeparator opts \<noteq> None \<and> (?l = Single ''ja'' \<or> ?l = Single ''th'')"
    then obtain g where g: "loadLanguages ?l (header (style_none opts)) = Inr g"
      using loadLanguages_ja_th by blast
    from b have "exportTokenize ?l (lunr_tokenizerSeparator opts) = Inl SeparatorNotSupported"
      by (simp add: exportTokenize_error)
    with g show "cmfcmfDocusaurusSearchLocal opts = Inl SeparatorNotSupported"
      by (simp add: cmfcmfDocusaurusSearchLocal_def Let_def bindE_def)
  qed
  then show ?thesis
    by (auto simp: normalizeLanguage_cases)
qed

theorem separator_error_witness:
  "cmfcmfDocusaurusSearchLocal
     (ex_options\<lparr>language := Multiple [''th''], lunr_tokenizerSeparator := Some ex_separator\<rparr>)
   = Inl SeparatorNotSupported"
  using separator_error [of "ex_options\<lparr>language := Multiple [''th''], lunr_tokenizerSeparator := Some ex_separator\<rparr>"]
  by simp

text \<open>
  C9 as stated fails for a language array with more than one element: with the
  languages English and Japanese and a custom separator, construction succeeds.
\<close>

theorem separator_array_counterexample:
  "\<not> isl (cmfcmfDocusaurusSearchLocal
     (ex_options\<lparr>language := Multiple [''en'', ''ja''], lunr_tokenizerSeparator := Some ex_separator\<rparr>))"
  by (simp add: construct_simps ex_options_def)

subsection \<open>C6: ids are 1 to n, page by page\<close>

lemma isSchedule_in_order: "isSchedule [0..<length pages] pages"
  by (simp add: isSchedule_def)

lemma assemble_in_order:
  "map doc_id (assemble [0..<length pages] pages) = [1 ..< 1 + idsBefore pages [0..<length pages]]"
  using schedule_order_ids [OF isSchedule_in_order, of "length pages" pages]
  by (simp only: assemble_concat take_all length_upt diff_zero le_refl)

lemma assemble_length:
  assumes "isSchedule sched pages"
  shows "length (assemble sched pages) = idsBefore pages sched"
proof -
  have "length (assemble sched pages) = size (mset (map doc_id (assemble sched pages)))" by simp
  also have "\<dots> = size (mset [1 ..< 1 + idsBefore pages sched])"
    by (simp only: assemble_ids_mset [OF assms])
  finally show ?thesis by simp
qed

lemma assemble_distinct:
  assumes "isSchedule sched pages"
  shows "distinct (map doc_id (assemble sched pages))"
  using mset_eq_imp_distinct_iff [OF assemble_ids_mset [OF assms]] by simp

text \<open>
  C6. Whatever the order in which the reads complete, the ids of the documents of one
  run are pairwise different, they are exactly the numbers from 1 to the number of
  documents, and the documents of one page carry consecutive ids.
\<close>

theorem ids_contiguous:
  assumes "isSchedule sched pages"
  shows "distinct (map doc_id (assemble sched pages))
     \<and> set (map doc_id (assemble sched pages)) = {1..length (assemble sched pages)}
     \<and> (\<forall>i<length pages. \<exists>s\<ge>1. map doc_id (resolved sched pages ! i) = [s ..< s + sectionCount (pages ! i)])"
proof -
  have 2: "set (map doc_id (assemble sched pages)) = {1..length (assemble sched pages)}"
    using mset_eq_setD [OF assemble_ids_mset [OF assms]] assemble_length [OF assms]
    by auto
  have 3: "\<forall>i<length pages. \<exists>s\<ge>1. map doc_id (resolved sched pages ! i) = [s ..< s + sectionCount (pages ! i)]"
  proof (intro allI impI)
    fix i assume i: "i < length pages"
    with isSchedule_facts [OF assms] have "i \<in> set sched" by simp
    then obtain j where j: "j < length sched" "sched ! j = i" by (auto simp: in_set_conv_nth)
    with isSchedule_facts(3) [OF assms] have "j < length pages" by simp
    from resolved_at [OF assms this] j
    have "map doc_id (resolved sched pages ! i)
       = [1 + idsBefore pages (take j sched) ..< 1 + idsBefore pages (take j sched) + sectionCount (pages ! i)]"
      by (simp add: numberSections_ids sectionCount_def)
    then show "\<exists>s\<ge>1. map doc_id (resolved sched pages ! i) = [s ..< s + sectionCount (pages ! i)]"
      by (intro exI [of _ "1 + idsBefore pages (take j sched)"]) simp
  qed
  from assemble_distinct [OF assms] 2 3 show ?thesis by blast
qed

lemma ex_schedule: "isSchedule [1, 0] [ex_page ''/docs/a'' 2, ex_page ''/docs/b'' 1]"
  by (simp add: isSchedule_def upt_rec)

lemma ex_assemble:
  "map doc_id (assemble [1, 0] [ex_page ''/docs/a'' 2, ex_page ''/docs/b'' 1]) = [2, 3, 1]"
  by (simp add: assemble_def resolved_def ex_page_def numeral_2_eq_2)

theorem ids_contiguous_witness:
  "isSchedule [1, 0] [ex_page ''/docs/a'' 2, ex_page ''/docs/b'' 1]
   \<and> map doc_id (assemble [1, 0] [ex_page ''/docs/a'' 2, ex_page ''/docs/b'' 1]) = [2, 3, 1]
   \<and> distinct (map doc_id (assemble [1, 0] [ex_page ''/docs/a'' 2, ex_page ''/docs/b'' 1]))"
  using ids_contiguous [OF ex_schedule] ex_schedule ex_assemble by simp

subsection \<open>C1: which document gets which id\<close>

text \<open>
  C1, as the code has it. The counter is advanced when a read completes. The page whose
  read completes at position \<open>j\<close> gets the ids that follow those of the pages completed
  before it. Everything else in the documents, their order included, is the same for
  every completion order, so two runs on the same input differ in nothing but the ids,
  and not at all when the reads complete in the same order. When the reads complete in
  the order of the routes, the ids count up along the document list.
\<close>

theorem ids_follow_completion_order:
  assumes "isSchedule sched pages"
  shows "(\<forall>j<length pages. map doc_id (resolved sched pages ! (sched ! j))
            = [1 + idsBefore pages (take j sched) ..< 1 + idsBefore pages (take (Suc j) sched)])
     \<and> (\<forall>sched'. isSchedule sched' pages \<longrightarrow>
           map (\<lambda>d. d\<lparr>doc_id := 0\<rparr>) (assemble sched' pages)
             = map (\<lambda>d. d\<lparr>doc_id := 0\<rparr>) (assemble sched pages))
     \<and> (sched = [0..<length pages] \<longrightarrow>
           map doc_id (assemble sched pages) = [1 ..< 1 + length (assemble sched pages)])"
proof -
  have 1: "\<forall>j<length pages. map doc_id (resolved sched pages ! (sched ! j))
            = [1 + idsBefore pages (take j sched) ..< 1 + idsBefore pages (take (Suc j) sched)]"
    using resolved_ids [OF assms] by blast
  have 2: "\<forall>sched'. isSchedule sched' pages \<longrightarrow>
           map (\<lambda>d. d\<lparr>doc_id := 0\<rparr>) (assemble sched' pages)
             = map (\<lambda>d. d\<lparr>doc_id := 0\<rparr>) (assemble sched pages)"
    by (simp only: assemble_erase [OF assms]) (simp add: assemble_erase)
  have 3: "sched = [0..<length pages] \<longrightarrow>
           map doc_id (assemble sched pages) = [1 ..< 1 + length (assemble sched pages)]"
  proof
    assume s: "sched = [0..<length pages]"
    show "map doc_id (assemble sched pages) = [1 ..< 1 + length (assemble sched pages)]"
      unfolding assemble_length [OF assms] unfolding s by (rule assemble_in_order)
  qed
  from 1 2 3 show ?thesis by blast
qed

theorem ids_follow_completion_order_witness:
  "isSchedule [1, 0] [ex_page ''/docs/a'' 2, ex_page ''/docs/b'' 1]
   \<and> map doc_id (resolved [1, 0] [ex_page ''/docs/a'' 2, ex_page ''/docs/b'' 1] ! 0) = [2, 3]"
proof -
  have "map doc_id (resolved [1, 0] [ex_page ''/docs/a'' 2, ex_page ''/docs/b'' 1] ! ([1, 0] ! 1))
      = [1 + idsBefore [ex_page ''/docs/a'' 2, ex_page ''/docs/b'' 1] (take 1 [1, 0])
          ..< 1 + idsBefore [ex_page ''/docs/a'' 2, ex_page ''/docs/b'' 1] (take (Suc 1) [1, 0])]"
    by (rule ids_follow_completion_order [OF ex_schedule, THEN conjunct1, rule_format]) simp
  then have "map doc_id (resolved [1, 0] [ex_page ''/docs/a'' 2, ex_page ''/docs/b'' 1] ! 0) = [2 ..< 4]"
    by (simp add: idsBefore_def sectionCount_def ex_page_def)
  with ex_schedule show ?thesis by (simp add: upt_rec)
qed

lemma ex_data:
  "gatherData ex_options (ex_env sched) ex_build
     = Inr [\<lparr>d_file = ''build/docs/a/index.html'', d_url = ''/docs/a'', d_type = Docs\<rparr>,
            \<lparr>d_file = ''build/docs/b/index.html'', d_url = ''/docs/b'', d_type = Docs\<rparr>]"
  by (simp add: gatherData_def buildPluginMap_def values_of_def toFile_def route_simps
      ex_options_def ex_env_def ex_build_def docsAtDocs_def)

lemma ex_pages:
  "readPages (ex_env sched)
     [\<lparr>d_file = ''build/docs/a/index.html'', d_url = ''/docs/a'', d_type = Docs\<rparr>,
      \<lparr>d_file = ''build/docs/b/index.html'', d_url = ''/docs/b'', d_type = Docs\<rparr>]
   = Inr [ex_pageA, ex_pageB]"
  by (simp add: readPage_def bindE_def ex_env_def ex_pageA_def ex_pageB_def)

lemma ex_postBuild:
  "postBuild ex_options (ex_env sched) ex_build
     = bindE (documentsByDocusaurusTag (assemble sched [ex_pageA, ex_pageB]))
         (\<lambda>groups. Inr (map (writeArtifact ex_options (ex_env sched) (outDir ex_build)) groups))"
  by (simp only: postBuild_def ex_data ex_pages bindE_def sum.case)
     (simp add: ex_env_def ex_build_def)

lemmas run_simps = ex_postBuild bindE_def assemble_def resolved_def ex_pageA_def ex_pageB_def
  documentsByDocusaurusTag_def groupStep_def object_prototype_keys_def writeArtifact_def
  toMyDocument_def

text \<open>
  C1 as stated fails: two runs of \<open>postBuild\<close> on the same routes and the same page
  contents, one where the reads complete in route order and one where the second read
  completes first, give the two section routes different ids.
\<close>

theorem ids_depend_on_completion_counterexample:
  "idAssociation (postBuild ex_options (ex_env [0, 1]) ex_build)
     = Inr [(''default'', [(1, ''/docs/a''), (2, ''/docs/b'')])]
   \<and> idAssociation (postBuild ex_options (ex_env [1, 0]) ex_build)
     = Inr [(''default'', [(2, ''/docs/a''), (1, ''/docs/b'')])]"
  by (simp add: run_simps idAssociation_def)

subsection \<open>C2: summaries and index references of one artifact\<close>

lemma readPages_length: "readPages e ds = Inr ps \<Longrightarrow> length ps = length ds"
  by (induction ds arbitrary: ps) (auto dest!: bindE_Inr)

lemma postBuild_artifact:
  assumes pb: "postBuild v e b = Inr arts"
    and gd: "gatherData v e b = Inr data"
    and mem: "(tag, a) \<in> set arts"
  shows "\<exists>pages. readPages e data = Inr pages \<and> length pages = length data
     \<and> tag \<in> docusaurusTag ` set (assemble (completion e) pages)
     \<and> art_documents a = map (toMyDocument v)
          (filter (\<lambda>d. docusaurusTag d = tag) (assemble (completion e) pages))
     \<and> art_index a = buildIndex v
          (filter (\<lambda>d. docusaurusTag d = tag) (assemble (completion e) pages))"
proof -
  from pb gd obtain pages groups where pages: "readPages e data = Inr pages"
    and groups: "documentsByDocusaurusTag (assemble (completion e) pages) = Inr groups"
    and arts: "arts = map (writeArtifact v e (outDir b)) groups"
    unfolding postBuild_def by (auto dest!: bindE_Inr)
  from mem arts obtain g where g: "g \<in> set groups" and ta: "(tag, a) = writeArtifact v e (outDir b) g"
    by auto
  obtain t ds where tds: "g = (t, ds)" by (cases g)
  from grouped_member [OF documentsByDocusaurusTag_grouped [OF groups], of t ds] g tds
  have t: "t \<in> docusaurusTag ` set (assemble (completion e) pages)"
    and ds: "ds = filter (\<lambda>d. docusaurusTag d = t) (assemble (completion e) pages)"
    by auto
  from ta tds have "tag = t" and "a = \<lparr>art_file = path_join e [outDir b, ''search-index-'' @ t @ ''.json''],
       art_documents = map (toMyDocument v) ds, art_index = buildIndex v ds\<rparr>"
    by (simp_all add: writeArtifact_def)
  then have r: "tag = t" "art_documents a = map (toMyDocument v) ds" "art_index a = buildIndex v ds"
    by simp_all
  show ?thesis
    using t ds pages readPages_length [OF pages] unfolding r by blast
qed

text \<open>
  C2, as the code has it. In every artifact written, the references of the documents
  added to the index are the decimal ids of the summaries, in the same order; the ids of
  the summaries are pairwise different, so every reference of the index resolves to
  exactly one summary and every summary is referred to. The summaries are listed in the
  order of the routes; that is ascending id order when the reads complete in the order
  of the routes.
\<close>

theorem artifact_references:
  assumes pb: "postBuild v e b = Inr arts"
    and gd: "gatherData v e b = Inr data"
    and sch: "mset (completion e) = mset [0..<length data]"
    and mem: "(tag, a) \<in> set arts"
  shows "map ref_id (idx_documents (art_index a)) = map (\<lambda>s. toString (my_id s)) (art_documents a)
     \<and> distinct (map my_id (art_documents a))
     \<and> (\<forall>r\<in>set (map ref_id (idx_documents (art_index a))).
           \<exists>!s. s \<in> set (art_documents a) \<and> toString (my_id s) = r)
     \<and> (\<forall>s\<in>set (art_documents a). toString (my_id s) \<in> set (map ref_id (idx_documents (art_index a))))
     \<and> (completion e = [0..<length data] \<longrightarrow> sorted (map my_id (art_documents a)))"
proof -
  from postBuild_artifact [OF pb gd mem] obtain pages where
    len: "length pages = length data"
    and docs: "art_documents a = map (toMyDocument v)
          (filter (\<lambda>d. docusaurusTag d = tag) (assemble (completion e) pages))"
    and idx: "art_index a = buildIndex v
          (filter (\<lambda>d. docusaurusTag d = tag) (assemble (completion e) pages))"
    by blast
  let ?all = "assemble (completion e) pages"
  let ?ds = "filter (\<lambda>d. docusaurusTag d = tag) ?all"
  from sch len have S: "isSchedule (completion e) pages" by (simp add: isSchedule_def)
  have ids: "map my_id (art_documents a) = map doc_id ?ds"
    by (simp add: docs toMyDocument_def)
  have refs: "map ref_id (idx_documents (art_index a)) = map (\<lambda>s. toString (my_id s)) (art_documents a)"
    by (simp add: docs idx buildIndex_def addDocument_def toMyDocument_def)
  have dist: "distinct (map my_id (art_documents a))"
    unfolding ids using assemble_distinct [OF S] by (rule distinct_map_filter)
  have uniq: "\<forall>r\<in>set (map ref_id (idx_documents (art_index a))).
           \<exists>!s. s \<in> set (art_documents a) \<and> toString (my_id s) = r"
  proof
    fix r assume "r \<in> set (map ref_id (idx_documents (art_index a)))"
    then obtain s where s: "s \<in> set (art_documents a)" "toString (my_id s) = r"
      unfolding refs by auto
    show "\<exists>!s. s \<in> set (art_documents a) \<and> toString (my_id s) = r"
    proof (rule ex1I [of _ s])
      from s show "s \<in> set (art_documents a) \<and> toString (my_id s) = r" by simp
    next
      fix s' assume s': "s' \<in> set (art_documents a) \<and> toString (my_id s') = r"
      with s have eq: "my_id s' = my_id s" by (auto dest: toString_inj)
      from dist have "inj_on my_id (set (art_documents a))" by (simp add: distinct_map)
      from inj_onD [OF this eq] s s' show "s' = s" by simp
    qed
  qed
  have used: "\<forall>s\<in>set (art_documents a). toString (my_id s) \<in> set (map ref_id (idx_documents (art_index a)))"
    unfolding refs by auto
  have asc: "completion e = [0..<length data] \<longrightarrow> sorted (map my_id (art_documents a))"
  proof
    assume "completion e = [0..<length data]"
    with len have "map doc_id ?all = [1 ..< 1 + idsBefore pages [0..<length pages]]"
      using assemble_in_order [of pages] by simp
    then have "sorted (map doc_id ?all)" by (simp only: sorted_upt)
    then show "sorted (map my_id (art_documents a))"
      unfolding ids by (rule sorted_filter)
  qed
  show ?thesis
    by (intro conjI) (fact refs, fact dist, fact uniq, fact used, fact asc)
qed

theorem artifact_references_witness:
  "postBuild ex_options (ex_env [1, 0]) ex_build = Inr [ex_artifact]
   \<and> map ref_id (idx_documents (art_index (snd ex_artifact)))
       = map (\<lambda>s. toString (my_id s)) (art_documents (snd ex_artifact))
   \<and> map my_id (art_documents (snd ex_artifact)) = [2, 1]"
proof -
  have run: "postBuild ex_options (ex_env [1, 0]) ex_build = Inr [ex_artifact]"
    by (simp only: ex_postBuild)
       (simp add: bindE_def assemble_def resolved_def ex_pageA_def ex_pageB_def ex_artifact_def
          documentsByDocusaurusTag_def groupStep_def object_prototype_keys_def ex_build_def)
  have sch: "mset (completion (ex_env [1, 0])) = mset [0..<length
       [\<lparr>d_file = ''build/docs/a/index.html'', d_url = ''/docs/a'', d_type = Docs\<rparr>,
        \<lparr>d_file = ''build/docs/b/index.html'', d_url = ''/docs/b'', d_type = Docs\<rparr>]]"
    by (simp add: ex_env_def upt_rec)
  have mem: "(fst ex_artifact, snd ex_artifact) \<in> set [ex_artifact]" by simp
  have ids: "map my_id (art_documents (snd ex_artifact)) = [2, 1]"
    by (simp add: ex_artifact_def writeArtifact_def toMyDocument_def assemble_def resolved_def
        ex_pageA_def ex_pageB_def)
  from artifact_references [OF run ex_data sch mem]
  have "map ref_id (idx_documents (art_index (snd ex_artifact)))
       = map (\<lambda>s. toString (my_id s)) (art_documents (snd ex_artifact))"
    by (rule conjunct1)
  with run ids show ?thesis by simp
qed

text \<open>
  C2 as stated fails in its first part: when the read of the second page completes
  first, the summaries of the artifact are listed with the ids 2, 1.
\<close>

theorem summaries_not_ascending_counterexample:
  "summaryIds (postBuild ex_options (ex_env [1, 0]) ex_build) = Inr [(''default'', [2, 1])]
   \<and> \<not> sorted [2, 1 :: nat]"
  by (simp add: run_simps summaryIds_def)

subsection \<open>C8: the tokenizer generated for Chinese\<close>













end
